theory Spec2Isabelle
  imports Main "HOL-Library.Word" "HOL-Library.Log_Nat"
begin

section \<open>Data model of loldownloader.c\<close>

text \<open>
  The C structures become records. \<open>unsigned int\<close> is a 32-bit word; file contents and
  C strings are \<open>string\<close>s (lists of 8-bit characters).  The name of the \<open>size\<close> field of
  \<open>FileEntry\<close> clashes with a HOL constant and the two entry structures share their field
  names, so those fields carry a suffix.
\<close>

type_synonym u32 = "32 word"

definition MAX_LINE_LENGTH :: nat where "MAX_LINE_LENGTH = 256"
definition MAX_URL_LENGTH :: nat where "MAX_URL_LENGTH = 256"
definition MAX_PATH :: nat where "MAX_PATH = 1024"
definition MAX_BIN_COUNT :: nat where "MAX_BIN_COUNT = 32"

record Options =
  useBINFiles :: bool
  removeExistingFiles :: bool
  keepBINFiles :: bool
  downloadURL :: string
  downloadPath :: string
  gameVersion :: string
  destFolder :: string

record FileEntry =
  link :: string
  fileName :: string
  BIN :: u32
  offsetInBIN :: u32
  size_e :: u32
  unk :: u32

record FileArchiveEntry =
  link_a :: string
  fileName_a :: string

record ProgressData =
  timeOld :: u32
  bytesOld :: u32
  avgSpeedInBytesPerSecond :: u32
  bytesAlreadyDownloaded :: u32

text \<open>\<open>(ProgressData){0}\<close>\<close>

definition ProgressData_zero :: ProgressData where
  "ProgressData_zero =
     \<lparr>timeOld = 0, bytesOld = 0, avgSpeedInBytesPerSecond = 0, bytesAlreadyDownloaded = 0\<rparr>"

section \<open>The world the downloader acts on\<close>

text \<open>
  The options of the global libcurl handle \<open>g_CURL\<close> that the program sets.  The stream given
  as \<open>CURLOPT_WRITEDATA\<close> is identified by the name of the file it was opened on.
\<close>

record CURL =
  opt_URL :: string
  opt_WRITEDATA :: "string option"
  opt_RESUME_FROM :: u32
  opt_NOPROGRESS :: bool
  opt_NOBODY :: bool

text \<open>
  What the program does to the outside: lines printed on standard output, and requests
  performed through libcurl, each recorded with the handle's options and the progress
  state \<open>g_progressData\<close> as they are when \<open>curl_easy_perform\<close> is entered.
\<close>

datatype event =
    Printed string
  | Performed CURL ProgressData
  | Inflated string string

text \<open>
  The global state: the regular files of the local file system with their contents, the
  directories \<open>make_directory\<close> was asked to create, the curl handle, \<open>g_progressData\<close>, and
  the trace of events.
\<close>

record world =
  files :: "string \<Rightarrow> string option"
  dirs :: "string set"
  g_CURL :: CURL
  g_progressData :: ProgressData
  out :: "event list"

text \<open>
  The HTTP origin is outside the program: \<open>content_length u\<close> is the value
  \<open>file_size_remote\<close> obtains for the URL \<open>u\<close> (already converted to \<open>unsigned int\<close>), and
  \<open>body u k\<close> is the byte sequence a GET of \<open>u\<close> resumed at byte \<open>k\<close> delivers to the write
  callback.
\<close>

record net =
  content_length :: "string \<Rightarrow> u32"
  body :: "string \<Rightarrow> nat \<Rightarrow> string"

definition printf :: "string \<Rightarrow> world \<Rightarrow> world" where
  "printf s w = w\<lparr>out := out w @ [Printed s]\<rparr>"

definition NL :: string where "NL = [CHR 0x0A]"

text \<open>\<open>file_exists\<close>: \<open>fopen(fileName, "rb")\<close> succeeds.\<close>

definition file_exists :: "world \<Rightarrow> string \<Rightarrow> bool" where
  "file_exists w name = (files w name \<noteq> None)"

text \<open>
  \<open>file_size\<close>: the position \<open>ftell\<close> reports at the end of the file, stored in an
  \<open>unsigned int\<close>.  It is only called on a file that was just found to exist.
\<close>

definition file_size :: "world \<Rightarrow> string \<Rightarrow> u32" where
  "file_size w name = (case files w name of None \<Rightarrow> 0 | Some c \<Rightarrow> of_nat (length c))"

definition remove_file :: "string \<Rightarrow> world \<Rightarrow> world" where
  "remove_file name w = w\<lparr>files := (files w)(name := None)\<rparr>"

text \<open>\<open>fopen(name, "wb")\<close> creates the file or truncates it to length zero.\<close>

definition fopen_wb :: "string \<Rightarrow> world \<Rightarrow> world" where
  "fopen_wb name w = w\<lparr>files := (files w)(name \<mapsto> [])\<rparr>"

text \<open>\<open>fopen(name, "ab")\<close> creates the file when it is absent and keeps its contents otherwise.\<close>

definition fopen_ab :: "string \<Rightarrow> world \<Rightarrow> world" where
  "fopen_ab name w =
     w\<lparr>files := (files w)(name \<mapsto> (case files w name of None \<Rightarrow> [] | Some c \<Rightarrow> c))\<rparr>"

text \<open>
  \<open>curl_easy_perform\<close>: the request is recorded; unless it is a body-less probe, the bytes
  the origin delivers are appended by \<open>write_callback\<close> to the stream set as
  \<open>CURLOPT_WRITEDATA\<close>.  The calls libcurl makes to \<open>progress_callback\<close> during the transfer
  are modelled separately (section on the progress estimator).
\<close>

definition curl_easy_perform :: "net \<Rightarrow> world \<Rightarrow> world" where
  "curl_easy_perform n w =
     (let h = g_CURL w;
          w1 = w\<lparr>out := out w @ [Performed h (g_progressData w)]\<rparr>
      in if opt_NOBODY h then w1
         else (case opt_WRITEDATA h of
                 None \<Rightarrow> w1
               | Some f \<Rightarrow>
                   w1\<lparr>files := (files w1)(f \<mapsto>
                         (case files w1 f of None \<Rightarrow> [] | Some c \<Rightarrow> c)
                           @ body n (opt_URL h) (unat (opt_RESUME_FROM h)))\<rparr>))"

text \<open>\<open>file_size_remote\<close> (lines 279-296): a body-less request, then the defaults restored.\<close>

definition file_size_remote :: "net \<Rightarrow> string \<Rightarrow> world \<Rightarrow> u32 \<times> world" where
  "file_size_remote n URL w =
     (let w1 = w\<lparr>g_CURL := (g_CURL w)\<lparr>opt_URL := URL, opt_NOPROGRESS := True, opt_NOBODY := True\<rparr>\<rparr>;
          w2 = w1\<lparr>g_progressData := ProgressData_zero\<rparr>;
          w3 = curl_easy_perform n w2;
          w4 = w3\<lparr>g_CURL := (g_CURL w3)\<lparr>opt_NOPROGRESS := False, opt_NOBODY := False\<rparr>\<rparr>
      in (content_length n URL, w4))"

text \<open>\<open>strrchr(s, c)\<close>: the index of the last occurrence of \<open>c\<close>, if any.\<close>

fun strrchr :: "string \<Rightarrow> char \<Rightarrow> nat option" where
  "strrchr [] c = None"
| "strrchr (x # xs) c =
     (case strrchr xs c of
        Some i \<Rightarrow> Some (Suc i)
      | None \<Rightarrow> if x = c then Some 0 else None)"

text \<open>
  \<open>make_path\<close> (lines 317-331) asks for every prefix of the path that ends before a slash,
  and for the path itself.
\<close>

fun slash_prefixes :: "string \<Rightarrow> string \<Rightarrow> string list" where
  "slash_prefixes acc [] = []"
| "slash_prefixes acc (c # cs) =
     (if c = CHR ''/'' then acc # slash_prefixes (acc @ [c]) cs
      else slash_prefixes (acc @ [c]) cs)"

definition make_path :: "string \<Rightarrow> world \<Rightarrow> world" where
  "make_path path w = w\<lparr>dirs := dirs w \<union> set (slash_prefixes [] path) \<union> {path}\<rparr>"

text \<open>
  The idiom used before every full download: copy the name, cut it at the last slash and
  create that directory path when there is a slash.
\<close>

definition make_parent_path :: "string \<Rightarrow> world \<Rightarrow> world" where
  "make_parent_path name w =
     (case strrchr name (CHR ''/'') of
        Some i \<Rightarrow> make_path (take i name) w
      | None \<Rightarrow> w)"

section \<open>Transfers\<close>

text \<open>
  The resume sequence shared textually by \<open>download_BIN_archive\<close> (lines 411-420) and
  \<open>main\<close> (lines 736-745): open for append, set \<open>CURLOPT_RESUME_FROM\<close>, the stream and the
  URL, reset the progress state and seed its \<open>bytesAlreadyDownloaded\<close>, perform, restore
  \<open>CURLOPT_RESUME_FROM\<close>.
\<close>

definition resume_transfer :: "net \<Rightarrow> string \<Rightarrow> string \<Rightarrow> u32 \<Rightarrow> world \<Rightarrow> world" where
  "resume_transfer n name URL localSize w =
     (let w1 = fopen_ab name w;
          w2 = w1\<lparr>g_CURL := (g_CURL w1)\<lparr>opt_RESUME_FROM := localSize,
                                           opt_WRITEDATA := Some name, opt_URL := URL\<rparr>\<rparr>;
          w3 = w2\<lparr>g_progressData := ProgressData_zero\<lparr>bytesAlreadyDownloaded := localSize\<rparr>\<rparr>;
          w4 = curl_easy_perform n w3
      in w4\<lparr>g_CURL := (g_CURL w4)\<lparr>opt_RESUME_FROM := 0\<rparr>\<rparr>)"

text \<open>
  The full download sequence (lines 437-442, 473-478 and 723-728): open for writing, set
  the stream and the URL, reset the progress state, perform.
\<close>

definition full_transfer :: "net \<Rightarrow> string \<Rightarrow> string \<Rightarrow> world \<Rightarrow> world" where
  "full_transfer n name URL w =
     (let w1 = fopen_wb name w;
          w2 = w1\<lparr>g_CURL := (g_CURL w1)\<lparr>opt_WRITEDATA := Some name, opt_URL := URL\<rparr>\<rparr>;
          w3 = w2\<lparr>g_progressData := ProgressData_zero\<rparr>
      in curl_easy_perform n w3)"

text \<open>\<open>download_BIN_archive\<close> (lines 399-444).\<close>

definition download_BIN_archive :: "Options \<Rightarrow> net \<Rightarrow> FileArchiveEntry \<Rightarrow> world \<Rightarrow> world" where
  "download_BIN_archive g_options n entry w =
     (if file_exists w (fileName_a entry) then
        (if removeExistingFiles g_options then remove_file (fileName_a entry) w
         else
           (let localSize = file_size w (fileName_a entry);
                (remoteSize, w1) = file_size_remote n (link_a entry) w
            in if localSize < remoteSize then
                 resume_transfer n (fileName_a entry) (link_a entry) localSize
                   (printf (''[INFO]: Resuming download of '' @ fileName_a entry @ NL) w1)
               else if localSize = remoteSize then
                 printf (''[INFO]: '' @ fileName_a entry @ '' already exists, skipping download'' @ NL) w1
               else
                 printf (''[WARNING]: Local '' @ fileName_a entry @ '' is bigger than remote file'' @ NL) w1))
      else
        full_transfer n (fileName_a entry) (link_a entry)
          (make_parent_path (fileName_a entry) w))"

text \<open>
  The manifest download of \<open>main\<close> (lines 721-751), for the path and URL that \<open>main\<close> has
  built.  It does not consult \<open>removeExistingFiles\<close>.
\<close>

definition download_packagemanifest :: "net \<Rightarrow> string \<Rightarrow> string \<Rightarrow> world \<Rightarrow> world" where
  "download_packagemanifest n packagemanifestPath packagemanifestURL w =
     (if \<not> file_exists w packagemanifestPath then
        full_transfer n packagemanifestPath packagemanifestURL
          (printf (''[INFO]: packagemanifest not found, downloading it...'' @ NL) w)
      else
        (let localSize = file_size w packagemanifestPath;
             (remoteSize, w1) = file_size_remote n packagemanifestURL w
         in if localSize < remoteSize then
              resume_transfer n packagemanifestPath packagemanifestURL localSize
                (printf (''[INFO]: Resuming download of packagemanifest'' @ NL) w1)
            else if localSize = remoteSize then
              printf (''[INFO]: packagemanifest already exists, skipping download'' @ NL) w1
            else
              printf (''[WARNING]: Local packagemanifest is bigger than remote packagemanifest'' @ NL) w1))"

text \<open>
  The final name of a game file (lines 352-357 and 448-453): the name cut at its last dot,
  or the name itself when it has no dot.
\<close>

definition finalFileName :: "string \<Rightarrow> string" where
  "finalFileName name =
     (case strrchr name (CHR ''.'') of Some i \<Rightarrow> take i name | None \<Rightarrow> name)"

text \<open>
  The decompressor \<open>inf\<close> (here \<open>inf_c\<close>) is defined outside this file; \<open>inflate c\<close> stands for what it
  writes to the destination stream when the source holds \<open>c\<close>.  The destination was opened
  with \<open>"wb"\<close> before, so what is written is appended to the (normally empty) file.
\<close>

definition inf_c :: "(string \<Rightarrow> string) \<Rightarrow> string \<Rightarrow> string \<Rightarrow> world \<Rightarrow> world" where
  "inf_c inflate src dst w =
     w\<lparr>files := (files w)(dst \<mapsto>
           (case files w dst of None \<Rightarrow> [] | Some d \<Rightarrow> d)
             @ inflate (case files w src of None \<Rightarrow> [] | Some c \<Rightarrow> c)),
       out := out w @ [Inflated src dst]\<rparr>"

text \<open>\<open>download_individual_file\<close> (lines 446-489).\<close>

definition download_individual_file ::
    "Options \<Rightarrow> net \<Rightarrow> (string \<Rightarrow> string) \<Rightarrow> FileEntry \<Rightarrow> world \<Rightarrow> world" where
  "download_individual_file g_options n inflate entry w =
     (let final = finalFileName (fileName entry) in
      if file_exists w final \<and> \<not> removeExistingFiles g_options then w
      else
        (let w1 = (if file_exists w final then remove_file final w else w);
             w2 = (if \<not> file_exists w1 (fileName entry)
                   then full_transfer n (fileName entry) (link entry)
                          (make_parent_path (fileName entry) w1)
                   else w1);
             w3 = fopen_wb final w2;
             w4 = inf_c inflate (fileName entry) final w3
         in remove_file (fileName entry) w4))"

section \<open>Extraction from an archive\<close>

text \<open>
  How a run can stop before its end: \<open>exit(0)\<close>, an assertion failure (\<open>abort\<close>), or
  undefined behaviour in the C sense.  The world at that point is kept with the reason.
\<close>

datatype stop = Exit0 | AssertFail | Undefined

type_synonym 'a result = "(stop \<times> world) + 'a"

text \<open>
  What the C library decides and the program cannot: whether \<open>malloc(k)\<close> returns
  \<open>NULL\<close>, the indeterminate bytes a fresh block holds, and how many of \<open>k\<close> bytes an
  \<open>fwrite\<close> gets written.  \<open>fopen\<close> for writing is taken to succeed; the code does not
  check it.
\<close>

record sys =
  malloc_null :: "nat \<Rightarrow> bool"
  garbage :: string
  fwrite_count :: "nat \<Rightarrow> nat"

definition malloc_block :: "sys \<Rightarrow> nat \<Rightarrow> string" where
  "malloc_block s k = take k (garbage s) @ replicate (k - length (garbage s)) (CHR 0x00)"

text \<open>\<open>sprintf("%08x")\<close> of an \<open>unsigned int\<close>: eight lower-case hexadecimal digits.\<close>

definition hex_digit :: "nat \<Rightarrow> char" where
  "hex_digit d = ''0123456789abcdef'' ! (d mod 16)"

definition hex8 :: "u32 \<Rightarrow> string" where
  "hex8 x = map (\<lambda>i. hex_digit (unat x div 16 ^ i)) [7, 6, 5, 4, 3, 2, 1, 0]"

definition BIN_name :: "u32 \<Rightarrow> string" where
  "BIN_name b = ''BIN_0x'' @ hex8 b"

text \<open>
  \<open>fseek(f, off, SEEK_SET)\<close> followed by \<open>fread(temp, 1, k, f)\<close> on a file holding \<open>c\<close>:
  the bytes obtained; their number is what \<open>fread\<close> returns.
\<close>

definition fread_at :: "string \<Rightarrow> nat \<Rightarrow> nat \<Rightarrow> string" where
  "fread_at c off k = take k (drop off c)"

text \<open>
  \<open>extract_from_BIN\<close> (lines 333-397).  Both output files are opened with \<open>"wb"\<close> before
  the archive is read.  The three error returns test \<open>!temp\<close>, \<open>!fread(...)\<close> and
  \<open>!fwrite(...)\<close>: a count of zero, not a count below \<open>entry->size\<close>.  \<open>fwrite\<close> is
  handed the whole block of \<open>entry->size\<close> bytes, of which only the first ones were
  filled by \<open>fread\<close>.
\<close>

definition extract_from_BIN ::
    "Options \<Rightarrow> sys \<Rightarrow> (string \<Rightarrow> string) \<Rightarrow> FileEntry \<Rightarrow> world \<Rightarrow> world result" where
  "extract_from_BIN g_options s inflate entry w =
     (let BINFileName = destFolder g_options @ ''/'' @ BIN_name (BIN entry) in
      if \<not> file_exists w BINFileName then
        Inl (Exit0, printf (''[ERROR]: BIN file not found: '' @ BINFileName @ NL) w)
      else
        (let w1 = make_parent_path (fileName entry) w;
             final = finalFileName (fileName entry);
             w2 = fopen_wb (fileName entry) w1;
             w3 = fopen_wb final w2;
             k = unat (size_e entry)
         in if malloc_null s k then
              Inr (printf (''[ERROR]: Couldn't allocate memory to extract file: ''
                             @ fileName entry @ NL) w3)
            else
              (let got = fread_at (case files w3 BINFileName of None \<Rightarrow> [] | Some c \<Rightarrow> c)
                           (unat (offsetInBIN entry)) k;
                   temp = got @ drop (length got) (malloc_block s k)
               in if length got = 0 then
                    Inr (printf (''[ERROR]: Couldn't read from BIN file: '' @ BINFileName @ NL) w3)
                  else
                    (let written = min k (fwrite_count s k);
                         w4 = w3\<lparr>files := (files w3)(fileName entry \<mapsto> take written temp)\<rparr>
                     in if written = 0 then
                          Inr (printf (''[ERROR]: Couldn't write to file: '' @ fileName entry @ NL) w4)
                        else
                          Inr (remove_file (fileName entry)
                                 (inf_c inflate (fileName entry) final w4))))))"

text \<open>
  The loop over the file list in \<open>get_files_using_packagemanifest\<close> (lines 606-619).  The
  progress bar it prints before each file is not recorded in the trace.
\<close>

fun process_files ::
    "Options \<Rightarrow> sys \<Rightarrow> net \<Rightarrow> (string \<Rightarrow> string) \<Rightarrow> FileEntry list \<Rightarrow> world \<Rightarrow> world result" where
  "process_files g_options s n inflate [] w = Inr w"
| "process_files g_options s n inflate (entry # es) w =
     (if useBINFiles g_options then
        (case extract_from_BIN g_options s inflate entry w of
           Inl e \<Rightarrow> Inl e
         | Inr w' \<Rightarrow> process_files g_options s n inflate es w')
      else
        process_files g_options s n inflate es
          (download_individual_file g_options n inflate entry
             (w\<lparr>g_CURL := (g_CURL w)\<lparr>opt_NOPROGRESS := True\<rparr>\<rparr>)))"

section \<open>Parsing the package manifest\<close>

text \<open>
  The parser works in the array \<open>char line[MAX_LINE_LENGTH]\<close>: \<open>fgets\<close> fills it,
  \<open>strtok\<close> writes terminators into it and hands out pointers into it, and
  \<open>token + 6\<close> may point past the token.  The array is a list of \<open>MAX_LINE_LENGTH\<close>
  characters, a pointer into it is an index, and the array's contents before the first
  \<open>fgets\<close> (indeterminate in C) are a parameter.
\<close>

definition NUL :: char where "NUL = CHR 0x00"

text \<open>The C string that starts at index \<open>p\<close> of the array.\<close>

definition cstr :: "string \<Rightarrow> nat \<Rightarrow> string" where
  "cstr buf p = takeWhile (\<lambda>c. c \<noteq> NUL) (drop p buf)"

text \<open>
  \<open>fgets(line, k, f)\<close>: at most \<open>k - 1\<close> characters, up to and including the first
  newline, then a terminator; \<open>NULL\<close> (and the array untouched) at the end of the file.
  The result is the array and the rest of the stream.
\<close>

fun fgets_chars :: "nat \<Rightarrow> string \<Rightarrow> string" where
  "fgets_chars 0 cs = []"
| "fgets_chars (Suc k) [] = []"
| "fgets_chars (Suc k) (c # cs) = (if c = CHR 0x0A then [c] else c # fgets_chars k cs)"

definition fgets :: "string \<Rightarrow> nat \<Rightarrow> string \<Rightarrow> (string \<times> string) option" where
  "fgets buf k inp =
     (if inp = [] then None
      else (let got = fgets_chars (k - 1) inp
            in Some (got @ NUL # drop (Suc (length got)) buf, drop (length got) inp)))"

text \<open>
  \<open>strtok(s, ",")\<close> continued from the pointer \<open>start\<close> (index 0 for the first call, the
  saved pointer afterwards): skip delimiters; at the terminator return \<open>NULL\<close>; otherwise
  the token runs to the next delimiter, which is overwritten by a terminator, or to the
  terminator of the string.  The result is the token pointer, the array and the saved
  pointer.  The scan stays inside the array, whose terminator written by \<open>fgets\<close> is never
  behind the saved pointer.
\<close>

definition strtok :: "string \<Rightarrow> nat \<Rightarrow> nat option \<times> string \<times> nat" where
  "strtok buf start =
     (let s = start + length (takeWhile (\<lambda>c. c = CHR '','') (drop start buf)) in
      if length buf \<le> s \<or> buf ! s = NUL then (None, buf, s)
      else (let e = s + length (takeWhile (\<lambda>c. c \<noteq> CHR '','' \<and> c \<noteq> NUL) (drop s buf)) in
            if length buf \<le> e \<or> buf ! e = NUL then (Some s, buf, e)
            else (Some s, buf[e := NUL], Suc e)))"

text \<open>\<open>strstr(hay, needle)\<close>: the index of the first occurrence, if any.\<close>

fun strstr :: "string \<Rightarrow> string \<Rightarrow> nat option" where
  "strstr [] needle = (if needle = [] then Some 0 else None)"
| "strstr (h # hs) needle =
     (if take (length needle) (h # hs) = needle then Some 0
      else map_option Suc (strstr hs needle))"

text \<open>
  \<open>strtol(p, 0, base)\<close> for \<open>base\<close> 10 or 16 on the characters from \<open>p\<close> to the end of the
  array: white space, an optional sign, for base 16 an optional \<open>0x\<close>, then digits; the
  value saturates at the bounds of \<open>long\<close> (64 bits, as on the Linux and macOS targets of
  the source).  \<open>None\<close> when the scan finds no stopping character inside the array.
\<close>

definition isspace :: "char \<Rightarrow> bool" where
  "isspace c = (c \<in> {CHR '' '', CHR 0x09, CHR 0x0A, CHR 0x0B, CHR 0x0C, CHR 0x0D})"

definition digit_val :: "char \<Rightarrow> nat option" where
  "digit_val c =
     (let k = (of_char c :: nat) in
      if 48 \<le> k \<and> k \<le> 57 then Some (k - 48)
      else if 97 \<le> k \<and> k \<le> 122 then Some (k - 87)
      else if 65 \<le> k \<and> k \<le> 90 then Some (k - 55)
      else None)"

fun accum :: "nat \<Rightarrow> nat \<Rightarrow> string \<Rightarrow> nat \<times> string" where
  "accum b acc [] = (acc, [])"
| "accum b acc (c # cs) =
     (case digit_val c of
        None \<Rightarrow> (acc, c # cs)
      | Some d \<Rightarrow> if d < b then accum b (acc * b + d) cs else (acc, c # cs))"

definition LONG_MAX :: int where "LONG_MAX = 2 ^ 63 - 1"
definition LONG_MIN :: int where "LONG_MIN = - (2 ^ 63)"

definition strtol :: "nat \<Rightarrow> string \<Rightarrow> int option" where
  "strtol b cs =
     (let cs1 = dropWhile isspace cs;
          (neg, cs2) = (case cs1 of
                          c # r \<Rightarrow> if c = CHR ''-'' then (True, r)
                                   else if c = CHR ''+'' then (False, r) else (False, cs1)
                        | [] \<Rightarrow> (False, cs1));
          cs3 = (case cs2 of
                   c # x # r \<Rightarrow> if b = 16 \<and> c = CHR ''0'' \<and> (x = CHR ''x'' \<or> x = CHR ''X'')
                                 then r else cs2
                 | _ \<Rightarrow> cs2);
          (v, rest) = accum b 0 cs3
      in if rest = [] then None
         else Some (if neg then max LONG_MIN (- int v) else min LONG_MAX (int v)))"

text \<open>
  \<open>atoi(token)\<close>, converted to the 32 bits of the \<open>int\<close> or \<open>unsigned int\<close> it is stored
  in.  \<open>None\<close> for a \<open>NULL\<close> token.
\<close>

definition atoi :: "string \<Rightarrow> nat option \<Rightarrow> u32 option" where
  "atoi buf token =
     (case token of
        None \<Rightarrow> None
      | Some t \<Rightarrow> map_option word_of_int (strtol 10 (drop t buf)))"

text \<open>
  The body of the loop (lines 523-549) in the order of the source.  A \<open>NULL\<close> passed on to
  \<open>strchr\<close>, \<open>sprintf\<close>, \<open>atoi\<close> or \<open>token + 6\<close>, a read past the array and an overflow
  of \<open>link\<close> or \<open>fileName\<close> are undefined behaviour.

  Lines 525-534: the first token is the name; \<open>strstr\<close> searches the string at the start
  of the array (which now ends where the first token ends) for \<open>"files/"\<close>, \<open>strchr\<close> moves
  to its slash.  The result is \<open>link\<close>, \<open>fileName\<close>, the array and the saved pointer.
\<close>

definition parse_name :: "Options \<Rightarrow> string \<Rightarrow> stop + (string \<times> string \<times> string \<times> nat)" where
  "parse_name g_options line =
     (let (token, line1, save1) = strtok line 0 in
      case strstr (cstr line1 0) ''files/'' of
        None \<Rightarrow> Inl Undefined
      | Some i \<Rightarrow>
         (case token of
            None \<Rightarrow> Inl Undefined
          | Some t \<Rightarrow>
             (let fileName' = destFolder g_options @ cstr line1 (i + 5);
                  link' = downloadURL g_options @ downloadPath g_options @ cstr line1 t
              in if MAX_PATH \<le> length fileName' \<or> MAX_URL_LENGTH \<le> length link'
                 then Inl Undefined
                 else Inr (link', fileName', line1, save1))))"

text \<open>Lines 536-537: the next token, and \<open>strtol(token + 6, 0, 16)\<close> stored in
  \<open>entry->BIN\<close>.\<close>

definition parse_BIN :: "string \<Rightarrow> nat \<Rightarrow> stop + (u32 \<times> string \<times> nat)" where
  "parse_BIN buf save =
     (let (token, buf', save') = strtok buf save in
      case token of
        None \<Rightarrow> Inl Undefined
      | Some t \<Rightarrow>
         (case strtol 16 (drop (t + 6) buf') of
            None \<Rightarrow> Inl Undefined
          | Some v \<Rightarrow> Inr (word_of_int v, buf', save')))"

text \<open>Lines 541-549, three times: the next token and its \<open>atoi\<close>.\<close>

definition parse_int :: "string \<Rightarrow> nat \<Rightarrow> stop + (u32 \<times> string \<times> nat)" where
  "parse_int buf save =
     (let (token, buf', save') = strtok buf save in
      case atoi buf' token of
        None \<Rightarrow> Inl Undefined
      | Some v \<Rightarrow> Inr (v, buf', save'))"

text \<open>
  The whole body: the entry, and the array as the five \<open>strtok\<close> calls leave it.  The
  assertion of line 538 is taken as compiled in; when it fails the program aborts.
\<close>

definition parse_line :: "Options \<Rightarrow> string \<Rightarrow> stop + (FileEntry \<times> string)" where
  "parse_line g_options line =
     (case parse_name g_options line of
        Inl e \<Rightarrow> Inl e
      | Inr (link', fileName', line1, save1) \<Rightarrow>
         (case parse_BIN line1 save1 of
            Inl e \<Rightarrow> Inl e
          | Inr (b, line2, save2) \<Rightarrow>
             if \<not> b < of_nat MAX_BIN_COUNT then Inl AssertFail
             else
              (case parse_int line2 save2 of
                 Inl e \<Rightarrow> Inl e
               | Inr (off, line3, save3) \<Rightarrow>
                  (case parse_int line3 save3 of
                     Inl e \<Rightarrow> Inl e
                   | Inr (sz, line4, save4) \<Rightarrow>
                      (case parse_int line4 save4 of
                         Inl e \<Rightarrow> Inl e
                       | Inr (u, line5, save5) \<Rightarrow>
                          Inr (\<lparr>link = link', fileName = fileName', BIN = b,
                                offsetInBIN = off, size_e = sz, unk = u\<rparr>, line5))))))"

text \<open>
  What the loop accumulates: the file list \<open>g_fileList\<close> in insertion order (\<open>list_add\<close>
  appends at the tail), the array \<open>hasBIN\<close>, and the counters.
\<close>

record parsed =
  p_files :: "FileEntry list"
  hasBIN :: "bool list"
  fileCount :: u32
  totalSize :: u32
  maxLineLength :: nat

definition parsed_init :: parsed where
  "parsed_init = \<lparr>p_files = [], hasBIN = replicate MAX_BIN_COUNT False, fileCount = 0,
                   totalSize = 0, maxLineLength = 0\<rparr>"

lemma fgets_shorter:
  assumes "fgets buf k inp = Some (buf', inp')" and "2 \<le> k"
  shows "length inp' < length inp"
proof -
  from assms have ne: "inp \<noteq> []" and inp': "inp' = drop (length (fgets_chars (k - 1) inp)) inp"
    by (auto simp: fgets_def Let_def split: if_splits)
  from \<open>2 \<le> k\<close> obtain j where j: "k - 1 = Suc j"
    by (cases "k - 1") auto
  from ne have "0 < length (fgets_chars (Suc j) inp)"
    by (cases inp) auto
  with ne have "length (drop (length (fgets_chars (Suc j) inp)) inp) < length inp"
    by simp
  then show ?thesis unfolding inp' j .
qed

text \<open>The \<open>while (fgets(...))\<close> loop of lines 517-554.\<close>

function parse_loop :: "Options \<Rightarrow> string \<Rightarrow> string \<Rightarrow> parsed \<Rightarrow> stop + parsed" where
  "parse_loop g_options line inp acc =
     (case fgets line MAX_LINE_LENGTH inp of
        None \<Rightarrow> Inr acc
      | Some (line', inp') \<Rightarrow>
          (case parse_line g_options line' of
             Inl e \<Rightarrow> Inl e
           | Inr (entry, line'') \<Rightarrow>
               parse_loop g_options line'' inp'
                 (acc\<lparr>p_files := p_files acc @ [entry],
                      hasBIN := (hasBIN acc)[unat (BIN entry) := True],
                      fileCount := fileCount acc + 1,
                      totalSize := totalSize acc + size_e entry,
                      maxLineLength := max (maxLineLength acc) (length (cstr line' 0))\<rparr>)))"
  by pat_completeness auto
termination
  by (relation "measure (\<lambda>(g, line, inp, acc). length inp)")
     (auto dest!: fgets_shorter simp: MAX_LINE_LENGTH_def)

declare parse_loop.simps [simp del]

text \<open>
  The head of \<open>get_files_using_packagemanifest\<close> (lines 503-557): the asserted \<open>fgets\<close> of
  the header, its comparison with \<open>"PKG1\r\n"\<close>, then the loop.
\<close>

definition PKG1 :: string where "PKG1 = ''PKG1'' @ [CHR 0x0D, CHR 0x0A]"

definition parse_packagemanifest ::
    "Options \<Rightarrow> string \<Rightarrow> string \<Rightarrow> world \<Rightarrow> parsed result" where
  "parse_packagemanifest g_options line0 inp w =
     (case fgets line0 MAX_LINE_LENGTH inp of
        None \<Rightarrow> Inl (AssertFail, w)
      | Some (line, inp') \<Rightarrow>
          if cstr line 0 \<noteq> PKG1 then
            Inl (Exit0, printf (''BAD PACKAGEMANIFEST FILE!'' @ NL)
                          (printf (''Invalid header: '' @ cstr line 0 @ NL) w))
          else (case parse_loop g_options line inp' parsed_init of
                  Inl e \<Rightarrow> Inl (e, w)
                | Inr p \<Rightarrow> Inr p))"

text \<open>
  Lines 559-574: one archive entry for every index set in \<open>hasBIN\<close>, in ascending order,
  each with a size probe of its link, summed up in \<open>totalBINFilesSize\<close>.
\<close>

definition archive_entry :: "Options \<Rightarrow> nat \<Rightarrow> FileArchiveEntry" where
  "archive_entry g_options i =
     \<lparr>link_a = downloadURL g_options @ downloadPath g_options
                 @ ''/projects/lol_game_client/releases/'' @ gameVersion g_options
                 @ ''/packages/files/'' @ BIN_name (of_nat i),
      fileName_a = destFolder g_options @ ''/'' @ BIN_name (of_nat i)\<rparr>"

fun build_archives ::
    "Options \<Rightarrow> net \<Rightarrow> bool list \<Rightarrow> nat list \<Rightarrow> FileArchiveEntry list \<times> u32 \<times> world
       \<Rightarrow> (FileArchiveEntry list \<times> u32 \<times> world) result" where
  "build_archives g_options n hb [] st = Inr st"
| "build_archives g_options n hb (i # js) (as, sum_sizes, w) =
     (if i < length hb \<and> hb ! i then
        (let entry = archive_entry g_options i in
         if MAX_URL_LENGTH \<le> length (link_a entry) then Inl (Undefined, w)
         else (let (sz, w') = file_size_remote n (link_a entry) w
               in build_archives g_options n hb js (as @ [entry], sum_sizes + sz, w')))
      else build_archives g_options n hb js (as, sum_sizes, w))"

text \<open>
  \<open>get_files_using_packagemanifest\<close> as a whole (lines 501-628): parse, build the archive
  list, download the archives (archive mode), process the files in list order, remove the
  archives unless they are kept.  The statistics, headings and progress bars it prints are
  not recorded in the trace.
\<close>

definition get_files_using_packagemanifest ::
    "Options \<Rightarrow> sys \<Rightarrow> net \<Rightarrow> (string \<Rightarrow> string) \<Rightarrow> string \<Rightarrow> string \<Rightarrow> world \<Rightarrow> world result" where
  "get_files_using_packagemanifest g_options s n inflate line0 inp w =
     (case parse_packagemanifest g_options line0 inp w of
        Inl e \<Rightarrow> Inl e
      | Inr p \<Rightarrow>
         (case build_archives g_options n (hasBIN p) [0..<MAX_BIN_COUNT] ([], 0, w) of
            Inl e \<Rightarrow> Inl e
          | Inr (archives, totalBINFilesSize, w1) \<Rightarrow>
             (let w2 = (if totalBINFilesSize \<noteq> totalSize p
                        then printf ''[WARNING]: Total sizes don't match!'' w1 else w1);
                  w3 = (if useBINFiles g_options
                        then fold (download_BIN_archive g_options n) archives w2 else w2)
              in case process_files g_options s n inflate (p_files p) w3 of
                   Inl e \<Rightarrow> Inl e
                 | Inr w4 \<Rightarrow>
                     Inr (if useBINFiles g_options \<and> \<not> keepBINFiles g_options
                          then fold (\<lambda>a. remove_file (fileName_a a)) archives w4
                          else w4))))"

section \<open>The progress estimator\<close>

text \<open>
  \<open>progress_callback\<close> computes with \<open>float\<close> and \<open>double\<close>.  A finite floating-point value
  is the rational number it denotes; an operation yields the exact result rounded to
  nearest, ties to even, at 24 bits (\<open>float\<close>) or 53 bits (\<open>double\<close>) of precision, as IEEE 754
  arithmetic does.  All values the program forms come from 32-bit and 64-bit integers, far
  inside the exponent range of both formats, so the exponent is not bounded here.  Division
  by zero yields an infinity or a NaN.
\<close>

datatype fval = Fin rat | PInf | NInf | NaN

definition pow2 :: "int \<Rightarrow> rat" where
  "pow2 e = (if 0 \<le> e then 2 ^ nat e else 1 / 2 ^ nat (- e))"

text \<open>For \<open>q > 0\<close>, the exponent \<open>e\<close> with \<open>2\<^sup>e \<le> q < 2\<^sup>e\<^sup>+\<^sup>1\<close>.\<close>

definition ilog2 :: "rat \<Rightarrow> int" where
  "ilog2 q = (let (a, b) = quotient_of q; d = bitlen a - bitlen b
              in if pow2 d \<le> q then d else d - 1)"

definition fround :: "nat \<Rightarrow> rat \<Rightarrow> rat" where
  "fround p q =
     (if q = 0 then 0
      else (let u = pow2 (ilog2 \<bar>q\<bar> + 1 - int p);
                m = \<bar>q\<bar> / u;
                f = \<lfloor>m\<rfloor>;
                t = m - of_int f;
                r = (if t < 1 / 2 then f else if 1 / 2 < t then f + 1
                     else if even f then f else f + 1)
            in sgn q * of_int r * u))"

definition to_float :: "rat \<Rightarrow> rat" where "to_float q = fround 24 q"
definition to_double :: "rat \<Rightarrow> rat" where "to_double q = fround 53 q"

text \<open>The \<open>float\<close> quotient \<open>a / b\<close> of two \<open>float\<close> values.\<close>

definition fdiv :: "rat \<Rightarrow> rat \<Rightarrow> fval" where
  "fdiv a b =
     (if b = 0 then (if a = 0 then NaN else if 0 < a then PInf else NInf)
      else Fin (to_float (a / b)))"

text \<open>
  The conversions \<open>(int)x\<close> and \<open>(unsigned int)x\<close> truncate towards zero; they are undefined
  (\<open>None\<close>) when \<open>x\<close> is not finite or the truncated value is not representable.
\<close>

definition trunc :: "rat \<Rightarrow> int" where
  "trunc q = (if 0 \<le> q then \<lfloor>q\<rfloor> else \<lceil>q\<rceil>)"

definition to_int :: "fval \<Rightarrow> int option" where
  "to_int x =
     (case x of
        Fin q \<Rightarrow> if - (2 ^ 31) \<le> trunc q \<and> trunc q < 2 ^ 31 then Some (trunc q) else None
      | _ \<Rightarrow> None)"

definition to_uint :: "fval \<Rightarrow> u32 option" where
  "to_uint x =
     (case x of
        Fin q \<Rightarrow> if 0 \<le> trunc q \<and> trunc q < 2 ^ 32 then Some (word_of_int (trunc q)) else None
      | _ \<Rightarrow> None)"

definition of_u32 :: "u32 \<Rightarrow> rat" where
  "of_u32 x = of_int (uint x)"

text \<open>\<open>sprintf("%02d")\<close> of a non-negative value.\<close>

function dec :: "nat \<Rightarrow> string" where
  "dec k = (if k < 10 then [char_of (48 + k)] else dec (k div 10) @ [char_of (48 + k mod 10)])"
  by pat_completeness auto
termination
  by (relation "measure (\<lambda>k. k)") auto

declare dec.simps [simp del]

definition dec2 :: "nat \<Rightarrow> string" where
  "dec2 k = (if k < 10 then CHR ''0'' # dec k else dec k)"

text \<open>
  \<open>build_ETA_string\<close> (lines 160-166).  There is no test of the speed: the quotient is
  formed and converted to \<open>int\<close> whatever it is.  When the conversion is defined the number
  of seconds is not negative, because neither operand is.
\<close>

definition build_ETA_string :: "u32 \<Rightarrow> u32 \<Rightarrow> u32 \<Rightarrow> string option" where
  "build_ETA_string bytesTotal bytesNow speedInBytesPerSecond =
     (let remaining = bytesTotal - bytesNow in
      case to_int (fdiv (to_float (of_u32 remaining)) (to_float (of_u32 speedInBytesPerSecond))) of
        None \<Rightarrow> None
      | Some secondsLeft \<Rightarrow>
          (let k = nat secondsLeft in
           Some (dec2 (k div (60 * 60)) @ '':'' @ dec2 ((k mod (60 * 60)) div 60) @ '':''
                   @ dec2 ((k mod (60 * 60)) mod 60))))"

text \<open>
  The constants of line 224: \<open>SMOOTHING_FACTOR\<close> is the \<open>double\<close> nearest to 0.1, and
  \<open>1 - SMOOTHING_FACTOR\<close> is computed in \<open>double\<close>.
\<close>

definition SMOOTHING_FACTOR :: rat where
  "SMOOTHING_FACTOR = to_double (1 / 10)"

text \<open>
  Line 224: \<open>SMOOTHING_FACTOR * speed + (1 - SMOOTHING_FACTOR) * avg\<close> in \<open>double\<close>, stored
  in an \<open>unsigned int\<close>.
\<close>

definition smooth :: "u32 \<Rightarrow> u32 \<Rightarrow> u32 option" where
  "smooth speed avg =
     to_uint (Fin (to_double (to_double (SMOOTHING_FACTOR * of_u32 speed)
                               + to_double (to_double (1 - SMOOTHING_FACTOR) * of_u32 avg))))"

text \<open>
  What the callback shows (lines 233-254), as far as it is modelled: the fraction \<open>p\<close> of
  line 241 and the ETA string.  The total is set to 1 when it is below 1 before \<open>p\<close> is
  computed.  The progress bar, the byte counts and the speed string are not modelled.
\<close>

record shown =
  s_p :: fval
  s_ETA :: "string option"

definition progress_display :: "u32 \<Rightarrow> u32 \<Rightarrow> ProgressData \<Rightarrow> shown" where
  "progress_display bytesTotal bytesNow progressData =
     (let bytesTotal' = (if bytesTotal < 1 then 1 else bytesTotal)
      in \<lparr>s_p = fdiv (to_float (of_u32 bytesNow)) (to_float (of_u32 bytesTotal')),
          s_ETA = build_ETA_string bytesTotal' bytesNow (avgSpeedInBytesPerSecond progressData)\<rparr>)"

text \<open>
  \<open>progress_callback\<close> (lines 208-257), given the value \<open>get_time_ms\<close> returns: the new
  progress state and what is shown, if anything.  The result is \<open>None\<close> when one of the
  conversions to \<open>unsigned int\<close> is undefined.
\<close>

definition progress_callback ::
    "u32 \<Rightarrow> ProgressData \<Rightarrow> int \<Rightarrow> int \<Rightarrow> (ProgressData \<times> shown option) option" where
  "progress_callback timeNow progressData dltotal dlnow =
     (case (to_uint (Fin (to_float (of_int dlnow))), to_uint (Fin (to_float (of_int dltotal)))) of
        (Some now', Some total') \<Rightarrow>
          (let bytesNow = now' + bytesAlreadyDownloaded progressData;
               bytesTotal = total' + bytesAlreadyDownloaded progressData
           in if timeOld progressData + 1000 \<le> timeNow then
                (let speedInBytesPerSecond = bytesNow - bytesOld progressData;
                     avg = (if avgSpeedInBytesPerSecond progressData = 0
                            then speedInBytesPerSecond
                            else avgSpeedInBytesPerSecond progressData)
                 in case smooth speedInBytesPerSecond avg of
                      None \<Rightarrow> None
                    | Some avg' \<Rightarrow>
                        (let progressData' = progressData\<lparr>timeOld := timeNow,
                               avgSpeedInBytesPerSecond := avg', bytesOld := bytesNow\<rparr>
                         in Some (progressData',
                                  Some (progress_display bytesTotal bytesNow progressData'))))
              else if bytesNow < bytesTotal then Some (progressData, None)
              else Some (progressData,
                         Some (progress_display bytesTotal bytesNow progressData)))
      | _ \<Rightarrow> None)"

section \<open>Observations used to state the transfer properties\<close>

text \<open>
  The state \<open>main\<close> leaves the curl handle in (lines 701-705) and every function restores
  before it returns: no resume offset, and requests carry a body.
\<close>

definition handle_idle :: "CURL \<Rightarrow> bool" where
  "handle_idle h = (opt_RESUME_FROM h = 0 \<and> \<not> opt_NOBODY h)"

text \<open>
  The body transfers of a trace, each as (URL, destination stream, resume offset, seeded
  \<open>bytesAlreadyDownloaded\<close>), and the URLs of its body-less size probes.
\<close>

fun transfers :: "event list \<Rightarrow> (string \<times> string option \<times> u32 \<times> u32) list" where
  "transfers [] = []"
| "transfers (Performed h pd # es) =
     (if opt_NOBODY h then transfers es
      else (opt_URL h, opt_WRITEDATA h, opt_RESUME_FROM h, bytesAlreadyDownloaded pd) # transfers es)"
| "transfers (Printed s # es) = transfers es"
| "transfers (Inflated a b # es) = transfers es"

fun probes :: "event list \<Rightarrow> string list" where
  "probes [] = []"
| "probes (Performed h pd # es) = (if opt_NOBODY h then opt_URL h # probes es else probes es)"
| "probes (Printed s # es) = probes es"
| "probes (Inflated a b # es) = probes es"

text \<open>
  The first line of a text, with its newline when it has one.
\<close>

fun first_line :: "string \<Rightarrow> string" where
  "first_line [] = []"
| "first_line (c # cs) = (if c = CHR 0x0A then [c] else c # first_line cs)"

text \<open>
  A manifest line as the format describes it: the five fields as text.  \<open>line_text\<close> is the
  line in the file: relative path, \<open>BIN_0x\<close> and the hexadecimal digits, offset, size and
  auxiliary value, separated by commas and ended by CR LF.
\<close>

record mline =
  m_name :: string
  m_bin :: string
  m_offset :: string
  m_size :: string
  m_unk :: string

definition line_text :: "mline \<Rightarrow> string" where
  "line_text l =
     m_name l @ '','' @ ''BIN_0x'' @ m_bin l @ '','' @ m_offset l @ '','' @ m_size l @ '',''
       @ m_unk l @ [CHR 0x0D, CHR 0x0A]"

text \<open>The value of a digit string in base \<open>b\<close>, and what a digit of base \<open>b\<close> is.\<close>

definition is_digit :: "nat \<Rightarrow> char \<Rightarrow> bool" where
  "is_digit b c = (case digit_val c of None \<Rightarrow> False | Some d \<Rightarrow> d < b)"

definition numval :: "nat \<Rightarrow> string \<Rightarrow> nat" where
  "numval b ds = foldl (\<lambda>a c. a * b + (case digit_val c of None \<Rightarrow> 0 | Some d \<Rightarrow> d)) 0 ds"

definition is_number :: "string \<Rightarrow> bool" where
  "is_number ds = (ds \<noteq> [] \<and> list_all (is_digit 10) ds \<and> numval 10 ds < 2 ^ 31)"

text \<open>
  A well-shaped line: the path holds no comma, terminator or newline and contains
  \<open>files/\<close>; eight hexadecimal digits; three non-negative decimal numbers that fit an
  \<open>int\<close>; the line fits the array \<open>line\<close>, and the names built from it fit \<open>link\<close> and
  \<open>fileName\<close>.  A well-formed line is a well-shaped one whose archive identifier is
  below \<open>MAX_BIN_COUNT\<close>.
\<close>

definition name_tail :: "string \<Rightarrow> string" where
  "name_tail name = (case strstr name ''files/'' of None \<Rightarrow> [] | Some i \<Rightarrow> drop (i + 5) name)"

definition well_shaped :: "Options \<Rightarrow> mline \<Rightarrow> bool" where
  "well_shaped g l =
     (list_all (\<lambda>c. c \<noteq> CHR '','' \<and> c \<noteq> NUL \<and> c \<noteq> CHR 0x0A) (m_name l) \<and>
      strstr (m_name l) ''files/'' \<noteq> None \<and>
      length (m_bin l) = 8 \<and> list_all (is_digit 16) (m_bin l) \<and>
      is_number (m_offset l) \<and> is_number (m_size l) \<and> is_number (m_unk l) \<and>
      length (line_text l) < MAX_LINE_LENGTH \<and>
      length (downloadURL g @ downloadPath g @ m_name l) < MAX_URL_LENGTH \<and>
      length (destFolder g @ name_tail (m_name l)) < MAX_PATH)"

definition well_formed :: "Options \<Rightarrow> mline \<Rightarrow> bool" where
  "well_formed g l = (well_shaped g l \<and> numval 16 (m_bin l) < MAX_BIN_COUNT)"

text \<open>
  The archive identifier as line 537 stores it: the value of the hexadecimal digits,
  which \<open>strtol\<close> saturates at \<open>LONG_MAX\<close>, reduced to the 32 bits of the \<open>unsigned int\<close>
  field \<open>BIN\<close>.
\<close>

definition stored_BIN :: "string \<Rightarrow> u32" where
  "stored_BIN ds = word_of_int (min LONG_MAX (int (numval 16 ds)))"

text \<open>
  A line in the five-field format whose archive tag holds any positive number of
  hexadecimal digits, and such a line whose stored identifier is below \<open>MAX_BIN_COUNT\<close>.
\<close>

definition well_tagged :: "Options \<Rightarrow> mline \<Rightarrow> bool" where
  "well_tagged g l =
     (list_all (\<lambda>c. c \<noteq> CHR '','' \<and> c \<noteq> NUL \<and> c \<noteq> CHR 0x0A) (m_name l) \<and>
      strstr (m_name l) ''files/'' \<noteq> None \<and>
      m_bin l \<noteq> [] \<and> list_all (is_digit 16) (m_bin l) \<and>
      is_number (m_offset l) \<and> is_number (m_size l) \<and> is_number (m_unk l) \<and>
      length (line_text l) < MAX_LINE_LENGTH \<and>
      length (downloadURL g @ downloadPath g @ m_name l) < MAX_URL_LENGTH \<and>
      length (destFolder g @ name_tail (m_name l)) < MAX_PATH)"

definition accepted :: "Options \<Rightarrow> mline \<Rightarrow> bool" where
  "accepted g l = (well_tagged g l \<and> unat (stored_BIN (m_bin l)) < MAX_BIN_COUNT)"

text \<open>The file descriptor a well-formed line stands for.\<close>

definition entry_of :: "Options \<Rightarrow> mline \<Rightarrow> FileEntry" where
  "entry_of g l =
     \<lparr>link = downloadURL g @ downloadPath g @ m_name l,
      fileName = destFolder g @ name_tail (m_name l),
      BIN = of_nat (numval 16 (m_bin l)),
      offsetInBIN = of_nat (numval 10 (m_offset l)),
      size_e = of_nat (numval 10 (m_size l)),
      unk = of_nat (numval 10 (m_unk l))\<rparr>"

text \<open>
  The array after a well-shaped line has gone through the five \<open>strtok\<close> calls, and the
  loop's accumulator after such a line.
\<close>

definition line_after :: "mline \<Rightarrow> string \<Rightarrow> string" where
  "line_after l stale =
     m_name l @ NUL # ''BIN_0x'' @ m_bin l @ NUL # m_offset l @ NUL # m_size l @ NUL #
       m_unk l @ CHR 0x0D # CHR 0x0A # NUL # stale"

definition add_line :: "Options \<Rightarrow> parsed \<Rightarrow> mline \<Rightarrow> parsed" where
  "add_line g acc l =
     acc\<lparr>p_files := p_files acc @ [entry_of g l],
         hasBIN := (hasBIN acc)[unat (BIN (entry_of g l)) := True],
         fileCount := fileCount acc + 1,
         totalSize := totalSize acc + size_e (entry_of g l),
         maxLineLength := max (maxLineLength acc) (length (line_text l))\<rparr>"

text \<open>Concrete inputs for the examples: the handle as \<open>main\<close> sets it up, a world holding
  the listed files, and an origin that serves the listed bodies and honours ranges.\<close>

definition curl_init :: CURL where
  "curl_init = \<lparr>opt_URL = [], opt_WRITEDATA = None, opt_RESUME_FROM = 0,
                 opt_NOPROGRESS = False, opt_NOBODY = False\<rparr>"

definition world_with :: "(string \<times> string) list \<Rightarrow> world" where
  "world_with fs = \<lparr>files = map_of fs, dirs = {}, g_CURL = curl_init,
                     g_progressData = ProgressData_zero, out = []\<rparr>"

definition origin :: "(string \<times> string) list \<Rightarrow> net" where
  "origin bs =
     \<lparr>content_length = (\<lambda>u. case map_of bs u of None \<Rightarrow> 0 | Some b \<Rightarrow> of_nat (length b)),
      body = (\<lambda>u k. case map_of bs u of None \<Rightarrow> [] | Some b \<Rightarrow> drop k b)\<rparr>"

definition options_default :: Options where
  "options_default =
     \<lparr>useBINFiles = True, removeExistingFiles = False, keepBINFiles = False,
      downloadURL = ''l3cdn.riotgames.com'', downloadPath = ''/releases/live'',
      gameVersion = [], destFolder = ''lol''\<rparr>"

definition sys_ok :: sys where
  "sys_ok = \<lparr>malloc_null = (\<lambda>k. False), garbage = ''?????????????'', fwrite_count = (\<lambda>k. k)\<rparr>"

text \<open>
  Four manifest lines: two well-formed ones, one naming archive \<open>0x20\<close>, and one whose tag
  \<open>BIN_0x100000001\<close> has nine digits.
\<close>

definition line_a :: mline where
  "line_a = \<lparr>m_name = ''/p/files/x/a.z'', m_bin = ''00000001'', m_offset = ''0'',
              m_size = ''10'', m_unk = ''0''\<rparr>"

definition line_b :: mline where
  "line_b = \<lparr>m_name = ''/p/files/x/b.z'', m_bin = ''0000001f'', m_offset = ''10'',
              m_size = ''20'', m_unk = ''7''\<rparr>"

definition line_bad :: mline where
  "line_bad = \<lparr>m_name = ''/p/files/x/c.z'', m_bin = ''00000020'', m_offset = ''30'',
                m_size = ''5'', m_unk = ''0''\<rparr>"

definition line_wrap :: mline where
  "line_wrap = \<lparr>m_name = ''/p/files/x/w.z'', m_bin = ''100000001'', m_offset = ''0'',
                 m_size = ''10'', m_unk = ''0''\<rparr>"

text \<open>
  Two states of the progress data: after a first callback at time 5000 that reports no
  byte yet, and after a second one a second later that reports 1000 bytes.
\<close>

definition pd_first :: ProgressData where
  "pd_first = \<lparr>timeOld = 5000, bytesOld = 0, avgSpeedInBytesPerSecond = 0,
                 bytesAlreadyDownloaded = 0\<rparr>"


lemmas wf_defs = well_formed_def well_shaped_def options_default_def is_number_def is_digit_def
  digit_val_def numval_def line_text_def name_tail_def NUL_def MAX_LINE_LENGTH_def MAX_URL_LENGTH_def
  MAX_PATH_def MAX_BIN_COUNT_def

lemmas transfer_defs =
  resume_transfer_def full_transfer_def file_size_remote_def curl_easy_perform_def printf_def
  fopen_ab_def fopen_wb_def file_exists_def file_size_def make_parent_path_def make_path_def
  remove_file_def Let_def

lemmas example_defs =
  curl_init_def world_with_def origin_def options_default_def ProgressData_zero_def NL_def

section \<open>Properties of the transfer decision\<close>

text \<open>
  C1.  With "remove existing" not requested, the archive download and the manifest download
  decide as follows.  Destination absent: one full transfer into the freshly created file.
  Destination present with \<open>local < remote\<close>: after the size probe, one transfer resumed at
  byte \<open>local\<close>, appended to the file, with the progress state zeroed except for
  \<open>bytesAlreadyDownloaded = local\<close>.  \<open>local = remote\<close>: only the probe and the "already
  exists, skipping" line.  \<open>local > remote\<close>: only the probe and the "bigger than remote"
  warning; in both of these the files are unchanged.
\<close>

theorem transfer_decision_table:
  assumes nr: "\<not> removeExistingFiles g" and idle: "handle_idle (g_CURL w)"
  shows
   "(let wa = download_BIN_archive g n \<lparr>link_a = url, fileName_a = name\<rparr> w;
         wm = download_packagemanifest n name url w;
         h = g_CURL w;
         probe = Performed (h\<lparr>opt_URL := url, opt_NOPROGRESS := True, opt_NOBODY := True\<rparr>)
                   ProgressData_zero;
         h' = h\<lparr>opt_URL := url, opt_NOPROGRESS := False\<rparr>;
         remote = content_length n url
     in handle_idle (g_CURL wa) \<and> handle_idle (g_CURL wm) \<and>
       (case files w name of
          None \<Rightarrow>
            out wa = out w @
              [Performed (h\<lparr>opt_WRITEDATA := Some name, opt_URL := url\<rparr>) ProgressData_zero] \<and>
            out wm = out w @
              [Printed (''[INFO]: packagemanifest not found, downloading it...'' @ NL),
               Performed (h\<lparr>opt_WRITEDATA := Some name, opt_URL := url\<rparr>) ProgressData_zero] \<and>
            files wa = (files w)(name \<mapsto> body n url 0) \<and> files wm = files wa
        | Some c \<Rightarrow>
            (let local = (of_nat (length c) :: u32) in
             if local < remote then
               out wa = out w @
                 [probe, Printed (''[INFO]: Resuming download of '' @ name @ NL),
                  Performed (h'\<lparr>opt_WRITEDATA := Some name, opt_RESUME_FROM := local\<rparr>)
                            (ProgressData_zero\<lparr>bytesAlreadyDownloaded := local\<rparr>)] \<and>
               out wm = out w @
                 [probe, Printed (''[INFO]: Resuming download of packagemanifest'' @ NL),
                  Performed (h'\<lparr>opt_WRITEDATA := Some name, opt_RESUME_FROM := local\<rparr>)
                            (ProgressData_zero\<lparr>bytesAlreadyDownloaded := local\<rparr>)] \<and>
               files wa = (files w)(name \<mapsto> c @ body n url (unat local)) \<and> files wm = files wa
             else if local = remote then
               out wa = out w @
                 [probe, Printed (''[INFO]: '' @ name @ '' already exists, skipping download'' @ NL)] \<and>
               out wm = out w @
                 [probe, Printed (''[INFO]: packagemanifest already exists, skipping download'' @ NL)] \<and>
               files wa = files w \<and> files wm = files w
             else
               out wa = out w @
                 [probe, Printed (''[WARNING]: Local '' @ name @ '' is bigger than remote file'' @ NL)] \<and>
               out wm = out w @
                 [probe, Printed (''[WARNING]: Local packagemanifest is bigger than remote packagemanifest'' @ NL)] \<and>
               files wa = files w \<and> files wm = files w)))"
proof (cases "files w name")
  case None
  with nr idle show ?thesis
    by (simp add: download_BIN_archive_def download_packagemanifest_def transfer_defs
        handle_idle_def split: option.splits)
next
  case (Some c)
  with nr idle show ?thesis
    by (simp add: download_BIN_archive_def download_packagemanifest_def transfer_defs
        handle_idle_def)
qed

theorem transfer_decision_table_witness:
  "(let u = ''http://o/BIN_0x00000000''; f = ''lol/BIN_0x00000000'';
        n = origin [(u, ''0123456789'')];
        e = \<lparr>link_a = u, fileName_a = f\<rparr>;
        probe = Performed (curl_init\<lparr>opt_URL := u, opt_NOPROGRESS := True, opt_NOBODY := True\<rparr>)
                  ProgressData_zero
    in
      transfers (out (download_BIN_archive options_default n e (world_with []))) =
        [(u, Some f, 0, 0)] \<and>
      files (download_packagemanifest n f u (world_with [])) f = Some ''0123456789'' \<and>
      out (download_BIN_archive options_default n e (world_with [(f, ''012'')])) =
        [probe, Printed (''[INFO]: Resuming download of lol/BIN_0x00000000'' @ NL),
         Performed (curl_init\<lparr>opt_URL := u, opt_WRITEDATA := Some f, opt_RESUME_FROM := 3\<rparr>)
                   (ProgressData_zero\<lparr>bytesAlreadyDownloaded := 3\<rparr>)] \<and>
      files (download_BIN_archive options_default n e (world_with [(f, ''012'')])) f =
        Some ''0123456789'' \<and>
      out (download_packagemanifest n f u (world_with [(f, ''0123456789'')])) =
        [probe, Printed (''[INFO]: packagemanifest already exists, skipping download'' @ NL)] \<and>
      out (download_BIN_archive options_default n e (world_with [(f, ''0123456789abc'')])) =
        [probe, Printed (''[WARNING]: Local lol/BIN_0x00000000 is bigger than remote file'' @ NL)] \<and>
      files (download_BIN_archive options_default n e (world_with [(f, ''0123456789abc'')])) f =
        Some ''0123456789abc'')"
proof -
  let ?u = "''http://o/BIN_0x00000000''" and ?f = "''lol/BIN_0x00000000''"
  let ?n = "origin [(?u, ''0123456789'')]"
  have g: "\<not> removeExistingFiles options_default" by (simp add: options_default_def)
  have i: "handle_idle (g_CURL (world_with fs))" for fs
    by (simp add: handle_idle_def world_with_def curl_init_def)
  have t: "?thesis"
    using transfer_decision_table [OF g i [of "[]"], where n = ?n and url = ?u and name = ?f]
      transfer_decision_table [OF g i [of "[(?f, ''012'')]"], where n = ?n and url = ?u and name = ?f]
      transfer_decision_table [OF g i [of "[(?f, ''0123456789'')]"], where n = ?n and url = ?u and name = ?f]
      transfer_decision_table [OF g i [of "[(?f, ''0123456789abc'')]"], where n = ?n and url = ?u and name = ?f]
    by (simp add: Let_def example_defs)
  then show ?thesis .
qed

subsection \<open>The individual-file path against the archive and manifest paths\<close>

lemma transfers_append: "transfers (xs @ ys) = transfers xs @ transfers ys"
  by (induction xs rule: transfers.induct) auto

lemma probes_append: "probes (xs @ ys) = probes xs @ probes ys"
  by (induction xs rule: probes.induct) auto

lemma archive_manifest_transfers:
  assumes "\<not> removeExistingFiles g"
  shows "transfers (out (download_BIN_archive g n \<lparr>link_a = url, fileName_a = name\<rparr> w)) =
         transfers (out (download_packagemanifest n name url w))"
  using assms
  by (cases "files w name"; cases "opt_NOBODY (g_CURL w)")
     (simp_all add: download_BIN_archive_def download_packagemanifest_def transfer_defs
        transfers_append split: option.splits)

lemma archive_manifest_probes:
  assumes "\<not> removeExistingFiles g"
  shows "probes (out (download_BIN_archive g n \<lparr>link_a = url, fileName_a = name\<rparr> w)) =
         probes (out (download_packagemanifest n name url w))"
  using assms
  by (cases "files w name"; cases "opt_NOBODY (g_CURL w)")
     (simp_all add: download_BIN_archive_def download_packagemanifest_def transfer_defs
        probes_append split: option.splits)

lemma archive_manifest_files:
  assumes "\<not> removeExistingFiles g"
  shows "files (download_BIN_archive g n \<lparr>link_a = url, fileName_a = name\<rparr> w) =
         files (download_packagemanifest n name url w)"
  using assms
  by (cases "files w name"; cases "opt_NOBODY (g_CURL w)")
     (simp_all add: download_BIN_archive_def download_packagemanifest_def transfer_defs
        split: option.splits)

lemma out_make_parent_path [simp]: "out (make_parent_path p w) = out w"
  by (simp add: make_parent_path_def make_path_def split: option.splits)

lemma files_make_parent_path [simp]: "files (make_parent_path p w) = files w"
  by (simp add: make_parent_path_def make_path_def split: option.splits)

lemma curl_make_parent_path [simp]: "g_CURL (make_parent_path p w) = g_CURL w"
  by (simp add: make_parent_path_def make_path_def split: option.splits)

lemma out_full_transfer:
  "out (full_transfer n name URL w) =
     out w @ [Performed ((g_CURL w)\<lparr>opt_WRITEDATA := Some name, opt_URL := URL\<rparr>) ProgressData_zero]"
  by (simp add: full_transfer_def curl_easy_perform_def fopen_wb_def Let_def)

lemma individual_skip:
  "\<not> removeExistingFiles g \<Longrightarrow> file_exists w (finalFileName (fileName e)) \<Longrightarrow>
     download_individual_file g n inflate e w = w"
  by (simp add: download_individual_file_def Let_def)

lemma out_individual:
  "\<not> removeExistingFiles g \<Longrightarrow> \<not> file_exists w (finalFileName (fileName e)) \<Longrightarrow>
   out (download_individual_file g n inflate e w) =
     out w @ (if file_exists w (fileName e) then []
              else [Performed ((g_CURL w)\<lparr>opt_WRITEDATA := Some (fileName e), opt_URL := link e\<rparr>)
                      ProgressData_zero])
       @ [Inflated (fileName e) (finalFileName (fileName e))]"
  by (simp add: download_individual_file_def Let_def out_full_transfer inf_c_def remove_file_def
      fopen_wb_def)

lemma individual_no_probe:
  assumes "\<not> removeExistingFiles g" "handle_idle (g_CURL w)"
  shows "probes (out (download_individual_file g n inflate e w)) = probes (out w)"
  using assms
  by (cases "file_exists w (finalFileName (fileName e))")
     (simp_all add: individual_skip out_individual probes_append handle_idle_def)

lemma individual_transfers:
  assumes "\<not> removeExistingFiles g" "handle_idle (g_CURL w)"
    "\<not> file_exists w (finalFileName (fileName e))"
  shows "transfers (out (download_individual_file g n inflate e w)) =
           transfers (out w) @
             (if file_exists w (fileName e) then [] else [(link e, Some (fileName e), 0, 0)])"
  using assms
  by (simp add: out_individual transfers_append handle_idle_def ProgressData_zero_def)

text \<open>
  C3 as stated fails: with a compressed file of 3 bytes on disk and 10 bytes at the origin,
  the archive path resumes at byte 3 and completes the file, while the individual-file path
  performs no transfer at all: it inflates the 3 bytes it found and removes them.
\<close>

theorem individual_file_decision_differs:
  "(let u = ''http://o/a.z''; f = ''lol/a.z'';
        n = origin [(u, ''0123456789'')];
        w = world_with [(f, ''012'')];
        wa = download_BIN_archive options_default n \<lparr>link_a = u, fileName_a = f\<rparr> w;
        wi = download_individual_file options_default n (\<lambda>c. c)
               \<lparr>link = u, fileName = f, BIN = 0, offsetInBIN = 0, size_e = 10, unk = 0\<rparr> w
    in transfers (out wa) = [(u, Some f, 3, 3)] \<and> transfers (out wi) = [] \<and>
       transfers (out wi) \<noteq> transfers (out wa) \<and>
       files wa f = Some ''0123456789'' \<and> files wi ''lol/a'' = Some ''012'' \<and> files wi f = None)"
  by (simp add: Let_def example_defs download_BIN_archive_def download_individual_file_def
       transfer_defs finalFileName_def inf_c_def)

text \<open>
  C3, amended.  With "remove existing" not requested, the manifest and the archive paths
  make the same size probe and the same transfer, and leave the same files.  The
  individual-file path compares no sizes: it never probes the origin; when the final
  (decompressed) file exists it changes nothing; when neither the final nor the compressed
  file exists it performs one full transfer; and any transfer it performs is a full one
  (offset 0, nothing counted as already downloaded).
\<close>

theorem shared_decision_amended:
  assumes nr: "\<not> removeExistingFiles g" and idle: "handle_idle (g_CURL w)"
  shows
   "(let wa = download_BIN_archive g n \<lparr>link_a = url, fileName_a = name\<rparr> w;
         wm = download_packagemanifest n name url w;
         wi = download_individual_file g n inflate e w;
         final = finalFileName (fileName e);
         full = (link e, Some (fileName e), 0, 0)
     in transfers (out wa) = transfers (out wm) \<and> probes (out wa) = probes (out wm) \<and>
        files wa = files wm \<and>
        probes (out wi) = probes (out w) \<and>
        (file_exists w final \<longrightarrow> wi = w) \<and>
        (\<not> file_exists w final \<and> \<not> file_exists w (fileName e) \<longrightarrow>
           transfers (out wi) = transfers (out w) @ [full]) \<and>
        (\<exists>ts. transfers (out wi) = transfers (out w) @ ts \<and> set ts \<subseteq> {full}))"
proof -
  have new: "\<exists>ts. transfers (out (download_individual_file g n inflate e w)) =
                 transfers (out w) @ ts \<and> set ts \<subseteq> {(link e, Some (fileName e), 0, 0)}"
  proof (cases "file_exists w (finalFileName (fileName e))")
    case True
    with nr have "download_individual_file g n inflate e w = w" by (rule individual_skip)
    then show ?thesis by simp
  next
    case False
    show ?thesis
      unfolding individual_transfers [OF nr idle False] by auto
  qed
  show ?thesis
    unfolding Let_def
    using nr idle new
    by (simp add: archive_manifest_transfers archive_manifest_probes archive_manifest_files
        individual_no_probe individual_skip individual_transfers)
qed

theorem shared_decision_amended_witness:
  "(let u = ''http://o/a.z''; f = ''lol/a.z''; g = options_default;
        n = origin [(u, ''0123456789'')];
        e = \<lparr>link = u, fileName = f, BIN = 0, offsetInBIN = 0, size_e = 10, unk = 0\<rparr>;
        w1 = world_with [(''lol/a'', ''xyz'')];
        w2 = world_with []
    in \<not> removeExistingFiles g \<and> handle_idle (g_CURL w1) \<and> handle_idle (g_CURL w2) \<and>
       file_exists w1 (finalFileName (fileName e)) \<and>
       download_individual_file g n (\<lambda>c. c) e w1 = w1 \<and>
       \<not> file_exists w2 (finalFileName (fileName e)) \<and> \<not> file_exists w2 (fileName e) \<and>
       transfers (out (download_individual_file g n (\<lambda>c. c) e w2)) = [(u, Some f, 0, 0)] \<and>
       transfers (out (download_BIN_archive g n \<lparr>link_a = u, fileName_a = f\<rparr> w2)) =
         transfers (out (download_packagemanifest n f u w2)))"
proof -
  let ?u = "''http://o/a.z''" and ?f = "''lol/a.z''"
  let ?n = "origin [(?u, ''0123456789'')]"
  let ?e = "\<lparr>link = ?u, fileName = ?f, BIN = 0, offsetInBIN = 0, size_e = 10, unk = 0\<rparr>"
  have g: "\<not> removeExistingFiles options_default" by (simp add: options_default_def)
  have i: "handle_idle (g_CURL (world_with fs))" for fs
    by (simp add: handle_idle_def world_with_def curl_init_def)
  have x1: "file_exists (world_with [(''lol/a'', ''xyz'')]) (finalFileName (fileName ?e))"
    by (simp add: file_exists_def world_with_def finalFileName_def)
  have x2: "\<not> file_exists (world_with []) (finalFileName (fileName ?e))"
    "\<not> file_exists (world_with []) (fileName ?e)"
    by (simp_all add: file_exists_def world_with_def finalFileName_def)
  have o: "transfers (out (world_with [])) = []" by (simp add: world_with_def)
  show ?thesis
    using shared_decision_amended [OF g i [of "[(''lol/a'', ''xyz'')]"],
        where n = ?n and e = ?e and inflate = "\<lambda>c. c" and url = ?u and name = ?f]
      shared_decision_amended [OF g i [of "[]"],
        where n = ?n and e = ?e and inflate = "\<lambda>c. c" and url = ?u and name = ?f]
      g i x1 x2 o
    by (simp add: Let_def)
qed

section \<open>Properties of the extraction\<close>

lemma extract_from_BIN_cases:
  assumes ex: "file_exists w (destFolder g @ ''/'' @ BIN_name (BIN e))"
  defines "w3 \<equiv> fopen_wb (finalFileName (fileName e))
                   (fopen_wb (fileName e) (make_parent_path (fileName e) w))"
  defines "got \<equiv> fread_at (case files w3 (destFolder g @ ''/'' @ BIN_name (BIN e)) of
                              None \<Rightarrow> [] | Some c \<Rightarrow> c)
                     (unat (offsetInBIN e)) (unat (size_e e))"
  shows "malloc_null s (unat (size_e e)) \<Longrightarrow>
           extract_from_BIN g s inflate e w =
             Inr (printf (''[ERROR]: Couldn't allocate memory to extract file: '' @ fileName e @ NL) w3)"
    and "\<not> malloc_null s (unat (size_e e)) \<Longrightarrow> got = [] \<Longrightarrow>
           extract_from_BIN g s inflate e w =
             Inr (printf (''[ERROR]: Couldn't read from BIN file: ''
                            @ (destFolder g @ ''/'' @ BIN_name (BIN e)) @ NL) w3)"
    and "\<not> malloc_null s (unat (size_e e)) \<Longrightarrow> got \<noteq> [] \<Longrightarrow>
         min (unat (size_e e)) (fwrite_count s (unat (size_e e))) = 0 \<Longrightarrow>
           extract_from_BIN g s inflate e w =
             Inr (printf (''[ERROR]: Couldn't write to file: '' @ fileName e @ NL)
                   (w3\<lparr>files := (files w3)(fileName e \<mapsto> [])\<rparr>))"
  using ex unfolding w3_def got_def extract_from_BIN_def Let_def
  by simp_all

lemma files_opened:
  "files (fopen_wb f2 (fopen_wb f1 (make_parent_path p w))) = (files w)(f1 \<mapsto> [], f2 \<mapsto> [])"
  by (simp add: fopen_wb_def)

lemma out_opened: "out (fopen_wb f2 (fopen_wb f1 (make_parent_path p w))) = out w"
  by (simp add: fopen_wb_def)

text \<open>
  C4, evaluated at a failing input: the archive holds 5 bytes, the entry asks for 10 bytes at
  offset 0.  \<open>fread\<close> obtains 5 bytes, which is not zero, so no diagnostic is printed; ten
  bytes (the five read and five indeterminate ones, here \<open>?\<close>) are written and inflated
  into the final file.
\<close>

theorem short_read_not_detected:
  "(let e = \<lparr>link = [], fileName = ''lol/a/b.z'', BIN = 0, offsetInBIN = 0, size_e = 10, unk = 0\<rparr>;
        w = world_with [(''lol/BIN_0x00000000'', ''01234'')]
    in fread_at ''01234'' (unat (offsetInBIN e)) (unat (size_e e)) = ''01234'' \<and>
       (\<exists>w'. extract_from_BIN options_default sys_ok (\<lambda>c. c) e w = Inr w' \<and>
          out w' = [Inflated ''lol/a/b.z'' ''lol/a/b''] \<and>
          files w' ''lol/a/b'' = Some ''01234?????''))"
  by (simp add: Let_def extract_from_BIN_def BIN_name_def hex8_def hex_digit_def fread_at_def
      malloc_block_def finalFileName_def inf_c_def example_defs sys_ok_def transfer_defs)

text \<open>
  C10.  When the archive exists, every error return of the extraction (no staging block, a
  read of zero bytes, a write of zero bytes) prints its diagnostic and leaves the files as
  they were except that the compressed file and the final file both exist with length
  zero.  The bytes are read from the archive as it is after both files were opened.
\<close>

theorem extraction_failure_leaves_empty_files:
  assumes ex: "file_exists w (destFolder g @ ''/'' @ BIN_name (BIN e))"
  shows
   "(let B = destFolder g @ ''/'' @ BIN_name (BIN e);
         final = finalFileName (fileName e);
         k = unat (size_e e);
         opened = (files w)(fileName e \<mapsto> [], final \<mapsto> []);
         got = fread_at (case opened B of None \<Rightarrow> [] | Some c \<Rightarrow> c) (unat (offsetInBIN e)) k
     in malloc_null s k \<or> got = [] \<or> min k (fwrite_count s k) = 0 \<longrightarrow>
        (\<exists>w' m. extract_from_BIN g s inflate e w = Inr w' \<and>
           out w' = out w @ [Printed m] \<and>
           m \<in> {''[ERROR]: Couldn't allocate memory to extract file: '' @ fileName e @ NL,
                 ''[ERROR]: Couldn't read from BIN file: '' @ B @ NL,
                 ''[ERROR]: Couldn't write to file: '' @ fileName e @ NL} \<and>
           files w' = opened \<and> files w' final = Some []))"
proof -
  let ?B = "destFolder g @ ''/'' @ BIN_name (BIN e)"
  let ?final = "finalFileName (fileName e)"
  let ?k = "unat (size_e e)"
  let ?opened = "(files w)(fileName e \<mapsto> [], ?final \<mapsto> [])"
  let ?got = "fread_at (case ?opened ?B of None \<Rightarrow> [] | Some c \<Rightarrow> c) (unat (offsetInBIN e)) ?k"
  let ?w3 = "fopen_wb ?final (fopen_wb (fileName e) (make_parent_path (fileName e) w))"
  note c = extract_from_BIN_cases [OF ex, of s inflate, unfolded files_opened]
  have f3: "files ?w3 = ?opened" and o3: "out ?w3 = out w"
    by (rule files_opened, rule out_opened)
  have "\<exists>w' m. extract_from_BIN g s inflate e w = Inr w' \<and>
           out w' = out w @ [Printed m] \<and>
           m \<in> {''[ERROR]: Couldn't allocate memory to extract file: '' @ fileName e @ NL,
                 ''[ERROR]: Couldn't read from BIN file: '' @ ?B @ NL,
                 ''[ERROR]: Couldn't write to file: '' @ fileName e @ NL} \<and>
           files w' = ?opened \<and> files w' ?final = Some []"
    if fail: "malloc_null s ?k \<or> ?got = [] \<or> min ?k (fwrite_count s ?k) = 0"
  proof (cases "malloc_null s ?k")
    case True
    from c(1) [OF True] show ?thesis
      by (simp add: printf_def f3 o3)
  next
    case nm: False
    show ?thesis
    proof (cases "?got = []")
      case True
      from c(2) [OF nm True] show ?thesis
        by (simp add: printf_def f3 o3)
    next
      case False
      with fail nm have "min ?k (fwrite_count s ?k) = 0" by simp
      from c(3) [OF nm False this] show ?thesis
        by (simp add: printf_def f3 o3) (simp add: fun_upd_twist)
    qed
  qed
  then show ?thesis
    unfolding Let_def by blast
qed

theorem extraction_failure_leaves_empty_files_witness:
  "file_exists (world_with [(''lol/BIN_0x00000000'', ''01234''), (''lol/a/b'', ''old'')])
     (destFolder options_default @ ''/'' @ BIN_name 0) \<and>
   fread_at ''01234'' 7 10 = [] \<and>
   (\<exists>w' m. extract_from_BIN options_default sys_ok (\<lambda>c. c)
              \<lparr>link = [], fileName = ''lol/a/b.z'', BIN = 0, offsetInBIN = 7, size_e = 10, unk = 0\<rparr>
              (world_with [(''lol/BIN_0x00000000'', ''01234''), (''lol/a/b'', ''old'')]) = Inr w' \<and>
            out w' = [Printed m] \<and> files w' ''lol/a/b'' = Some [] \<and> files w' ''lol/a/b.z'' = Some [])"
proof -
  let ?e = "\<lparr>link = [], fileName = ''lol/a/b.z'', BIN = 0, offsetInBIN = 7, size_e = 10, unk = 0\<rparr>"
  let ?w = "world_with [(''lol/BIN_0x00000000'', ''01234''), (''lol/a/b'', ''old'')]"
  have B: "destFolder options_default = ''lol''" "BIN_name 0 = ''BIN_0x00000000''"
    by (simp_all add: options_default_def BIN_name_def hex8_def hex_digit_def)
  have ex: "file_exists ?w (destFolder options_default @ ''/'' @ BIN_name (BIN ?e))"
    by (simp add: B file_exists_def world_with_def)
  have fin: "finalFileName ''lol/a/b.z'' = ''lol/a/b''"
    by (simp add: finalFileName_def)
  have got: "fread_at ''01234'' 7 10 = []"
    by (simp add: fread_at_def)
  have o: "out ?w = []" by (simp add: world_with_def)
  have "\<exists>w' m. extract_from_BIN options_default sys_ok (\<lambda>c. c) ?e ?w = Inr w' \<and>
            out w' = out ?w @ [Printed m] \<and>
            files w' = (files ?w)(''lol/a/b.z'' \<mapsto> [], ''lol/a/b'' \<mapsto> [])"
    using extraction_failure_leaves_empty_files [OF ex, of sys_ok "\<lambda>c. c"]
    by (simp add: Let_def B fin got world_with_def) blast
  then show ?thesis
    using ex got by (auto simp add: o)
qed

section \<open>Properties of the parser\<close>

subsection \<open>The header\<close>

lemma fgets_chars_first_line: "fgets_chars k inp = take k (first_line inp)"
  by (induction k inp rule: fgets_chars.induct) auto

lemma first_line_newline_last: "first_line inp = a @ CHR 0x0A # r \<Longrightarrow> r = []"
proof (induction inp arbitrary: a)
  case Nil
  then show ?case by simp
next
  case (Cons c cs)
  show ?case
  proof (cases "c = CHR 0x0A")
    case True
    with Cons.prems show ?thesis by (cases a) auto
  next
    case False
    with Cons.prems obtain a' where "a = c # a'" "first_line cs = a' @ CHR 0x0A # r"
      by (cases a) auto
    then show ?thesis using Cons.IH by blast
  qed
qed

lemma cstr_fgets:
  assumes "fgets buf k inp = Some (line, inp')"
  shows "cstr line 0 = takeWhile (\<lambda>c. c \<noteq> NUL) (take (k - 1) (first_line inp))"
  using assms
  by (auto simp: fgets_def Let_def cstr_def fgets_chars_first_line takeWhile_tail split: if_splits)

lemma header_match_first_line:
  assumes "takeWhile (\<lambda>c. c \<noteq> NUL) (take k (first_line inp)) = PKG1"
  shows "first_line inp = PKG1"
proof -
  have "take k (first_line inp) = PKG1 @ dropWhile (\<lambda>c. c \<noteq> NUL) (take k (first_line inp))"
    using takeWhile_dropWhile_id [of "\<lambda>c. c \<noteq> NUL" "take k (first_line inp)"] assms by simp
  with append_take_drop_id [of k "first_line inp"]
  have "first_line inp = PKG1 @ dropWhile (\<lambda>c. c \<noteq> NUL) (take k (first_line inp)) @ drop k (first_line inp)"
    by (metis append.assoc)
  then have fl: "first_line inp = ''PKG1'' @ [CHR 0x0D] @ CHR 0x0A # (dropWhile (\<lambda>c. c \<noteq> NUL) (take k (first_line inp)) @ drop k (first_line inp))"
    by (simp add: PKG1_def)
  define r where "r = dropWhile (\<lambda>c. c \<noteq> NUL) (take k (first_line inp)) @ drop k (first_line inp)"
  from fl have fl': "first_line inp = (''PKG1'' @ [CHR 0x0D]) @ CHR 0x0A # r"
    by (simp add: r_def)
  then have "r = []" by (rule first_line_newline_last)
  with fl' show ?thesis by (simp add: PKG1_def)
qed

text \<open>
  C7.  When the first line of the manifest is not exactly \<open>PKG1\<close> followed by CR LF, parsing
  yields no descriptors: the program stops with \<open>exit(0)\<close> after reporting the header (or
  with the failed assertion when the manifest is empty), and so does the whole of
  \<open>get_files_using_packagemanifest\<close>, with no file changed and no transfer made.
\<close>

theorem bad_header_is_fatal:
  assumes "first_line inp \<noteq> PKG1"
  shows "\<exists>st w'. parse_packagemanifest g line0 inp w = Inl (st, w') \<and>
           get_files_using_packagemanifest g s n inflate line0 inp w = Inl (st, w') \<and>
           st = (if inp = [] then AssertFail else Exit0) \<and>
           files w' = files w \<and> transfers (out w') = transfers (out w)"
proof (cases "fgets line0 MAX_LINE_LENGTH inp")
  case None
  then have "inp = []" by (simp add: fgets_def Let_def split: if_splits)
  with None show ?thesis
    by (simp add: parse_packagemanifest_def get_files_using_packagemanifest_def)
next
  case (Some a)
  obtain line inp' where a: "a = (line, inp')" by (cases a)
  from Some a have ne: "inp \<noteq> []" by (auto simp: fgets_def split: if_splits)
  have "cstr line 0 \<noteq> PKG1"
    using cstr_fgets [OF Some [unfolded a]] header_match_first_line [of "MAX_LINE_LENGTH - 1" inp] assms
    by auto
  with Some a ne show ?thesis
    by (simp add: parse_packagemanifest_def get_files_using_packagemanifest_def printf_def transfers_append)
qed

theorem bad_header_is_fatal_witness:
  "first_line (''PKG2'' @ [CHR 0x0D, CHR 0x0A] @ line_text line_a) \<noteq> PKG1 \<and>
   (\<exists>w'. get_files_using_packagemanifest options_default sys_ok (origin []) (\<lambda>c. c) []
            (''PKG2'' @ [CHR 0x0D, CHR 0x0A] @ line_text line_a) (world_with []) = Inl (Exit0, w') \<and>
          files w' = files (world_with []) \<and> transfers (out w') = [])"
proof -
  have f: "first_line (''PKG2'' @ [CHR 0x0D, CHR 0x0A] @ line_text line_a) \<noteq> PKG1"
    by (simp add: PKG1_def)
  have o: "transfers (out (world_with [])) = []" by (simp add: world_with_def)
  from bad_header_is_fatal [OF f, of options_default "[]" "world_with []" sys_ok "origin []" "\<lambda>c. c"]
  obtain st w' where r: "get_files_using_packagemanifest options_default sys_ok (origin []) (\<lambda>c. c) []
            (''PKG2'' @ [CHR 0x0D, CHR 0x0A] @ line_text line_a) (world_with []) = Inl (st, w')"
    "st = (if ''PKG2'' @ [CHR 0x0D, CHR 0x0A] @ line_text line_a = [] then AssertFail else Exit0)"
    "files w' = files (world_with [])" "transfers (out w') = transfers (out (world_with []))"
    by blast
  from r(2) have st: "st = Exit0" by simp
  show ?thesis
    by (intro conjI exI [of _ w']) (rule f r(1) [unfolded st] r(3) r(4) [unfolded o])+
qed

subsection \<open>Tokens and numbers\<close>

lemma not_digit_special:
  "\<not> is_digit b (CHR '','')" "\<not> is_digit b NUL" "\<not> is_digit b (CHR 0x0A)" "\<not> is_digit b (CHR 0x0D)"
  "\<not> is_digit b (CHR ''-'')" "\<not> is_digit b (CHR ''+'')"
  by (simp_all add: is_digit_def digit_val_def NUL_def)

lemma is_digit_not_space: "is_digit b c \<Longrightarrow> \<not> isspace c"
  by (auto simp: is_digit_def digit_val_def isspace_def Let_def split: if_splits)

lemma is_digit_neq:
  assumes "is_digit b c"
  shows "c \<noteq> CHR '',''" "c \<noteq> NUL" "c \<noteq> CHR 0x0A" "c \<noteq> CHR 0x0D" "c \<noteq> CHR ''-''" "c \<noteq> CHR ''+''"
  using assms not_digit_special by auto

lemma is_digit16_not_x: "b \<le> 16 \<Longrightarrow> \<not> is_digit b (CHR ''x'')" "b \<le> 16 \<Longrightarrow> \<not> is_digit b (CHR ''X'')"
  by (simp_all add: is_digit_def digit_val_def)

lemma accum_digits:
  assumes "list_all (is_digit b) ds" "\<not> is_digit b c"
  shows "accum b a (ds @ c # post) =
           (foldl (\<lambda>a c. a * b + (case digit_val c of None \<Rightarrow> 0 | Some d \<Rightarrow> d)) a ds, c # post)"
  using assms
  by (induction ds arbitrary: a) (auto simp: is_digit_def split: option.splits)

lemma strtol_plain:
  assumes "\<not> isspace d" "d \<noteq> CHR ''-''" "d \<noteq> CHR ''+''"
    and "\<not> (b = 16 \<and> d = CHR ''0'' \<and> (x = CHR ''x'' \<or> x = CHR ''X''))"
    and "accum b 0 (d # x # r) = (v, rest)" "rest \<noteq> []"
  shows "strtol b (d # x # r) = Some (min LONG_MAX (int v))"
  using assms unfolding strtol_def by (auto simp del: accum.simps)

lemma strtol_digits:
  assumes ne: "ds \<noteq> []" and dig: "list_all (is_digit b) ds" and b: "b \<le> 16"
    and c: "\<not> is_digit b c" "c \<noteq> CHR ''x''" "c \<noteq> CHR ''X''"
  shows "strtol b (ds @ c # post) = Some (min LONG_MAX (int (numval b ds)))"
proof -
  from ne obtain d ds' where ds: "ds = d # ds'" by (cases ds) auto
  with dig have d: "is_digit b d" and dig': "list_all (is_digit b) ds'" by auto
  obtain x r where xr: "ds' @ c # post = x # r" by (cases "ds' @ c # post") auto
  have x: "x \<noteq> CHR ''x'' \<and> x \<noteq> CHR ''X''"
  proof (cases ds')
    case Nil
    with c xr show ?thesis by simp
  next
    case (Cons e es)
    with dig' have "is_digit b e" by simp
    with b is_digit16_not_x [of b] have "e \<noteq> CHR ''x''" "e \<noteq> CHR ''X''" by auto
    with Cons xr show ?thesis by simp
  qed
  have acc: "accum b 0 (d # x # r) = (numval b ds, c # post)"
    using accum_digits [OF dig c(1), of 0 post] by (simp add: numval_def ds xr del: accum.simps)
  have "strtol b (d # x # r) = Some (min LONG_MAX (int (numval b ds)))"
    by (rule strtol_plain [OF is_digit_not_space [OF d] is_digit_neq(5,6) [OF d] _ acc]) (use x in auto)
  then show ?thesis by (simp add: ds xr)
qed

lemma strtok_comma:
  assumes "tok \<noteq> []" "list_all (\<lambda>c. c \<noteq> CHR '','' \<and> c \<noteq> NUL) tok" "length pre = k"
  shows "strtok (pre @ tok @ CHR '','' # post) k = (Some k, pre @ tok @ NUL # post, Suc (k + length tok))"
proof -
  from assms obtain t ts where tok: "tok = t # ts" by (cases tok) auto
  with assms have t: "t \<noteq> CHR '',''" "t \<noteq> NUL" by auto
  have tw: "takeWhile (\<lambda>c. c \<noteq> CHR '','' \<and> c \<noteq> NUL) (tok @ CHR '','' # post) = tok"
    using assms(2) by (simp add: takeWhile_append list_all_iff)
  have nth: "(pre @ tok @ CHR '','' # post) ! (k + length tok) = CHR '',''"
    using assms(3) by (simp add: nth_append)
  have upd: "(pre @ tok @ CHR '','' # post)[k + length tok := NUL] = pre @ tok @ NUL # post"
    using assms(3) by (simp add: list_update_append)
  show ?thesis
    unfolding strtok_def
    using assms(3) t tw nth upd
    by (simp add: Let_def tok nth_append NUL_def)
qed

lemma strtok_last:
  assumes "tok \<noteq> []" "list_all (\<lambda>c. c \<noteq> CHR '','' \<and> c \<noteq> NUL) tok" "length pre = k"
  shows "strtok (pre @ tok @ NUL # post) k = (Some k, pre @ tok @ NUL # post, k + length tok)"
proof -
  from assms obtain t ts where tok: "tok = t # ts" by (cases tok) auto
  with assms have t: "t \<noteq> CHR '',''" "t \<noteq> NUL" by auto
  have tw: "takeWhile (\<lambda>c. c \<noteq> CHR '','' \<and> c \<noteq> NUL) (tok @ NUL # post) = tok"
    using assms(2) by (simp add: takeWhile_append list_all_iff)
  have nth: "(pre @ tok @ NUL # post) ! (k + length tok) = NUL"
    using assms(3) by (simp add: nth_append)
  show ?thesis
    unfolding strtok_def
    using assms(3) t tw nth
    by (simp add: Let_def tok nth_append)
qed

lemma cstr_inside:
  assumes "list_all (\<lambda>c. c \<noteq> NUL) tok" "k \<le> length tok"
  shows "cstr (pre @ tok @ NUL # post) (length pre + k) = drop k tok"
proof -
  have "\<forall>c\<in>set (drop k tok). c \<noteq> NUL"
    using assms(1) by (auto simp: list_all_iff dest: in_set_dropD)
  then show ?thesis
    using assms(2) by (simp add: cstr_def takeWhile_append)
qed

lemma strstr_Some: "strstr h n = Some i \<Longrightarrow> take (length n) (drop i h) = n \<and> i + length n \<le> length h"
proof (induction h arbitrary: i)
  case Nil
  then show ?case by (auto split: if_splits)
next
  case (Cons a h)
  show ?case
  proof (cases "take (length n) (a # h) = n")
    case True
    with Cons.prems have "i = 0" by simp
    moreover from True have "length (take (length n) (a # h)) = length n" by simp
    then have "length n \<le> length (a # h)" by simp
    ultimately show ?thesis using True by simp
  next
    case False
    with Cons.prems obtain j where "strstr h n = Some j" "i = Suc j" by auto
    with Cons.IH show ?thesis by auto
  qed
qed

lemma not_digit_char0: "\<not> is_digit b (CHR 0x00)"
  using not_digit_special(2) [of b] by (simp add: NUL_def)

lemma list_all_digit_tok:
  "list_all (is_digit b) ds \<Longrightarrow> list_all (\<lambda>c. c \<noteq> CHR '','' \<and> c \<noteq> NUL) ds"
  by (auto simp: list_all_iff dest: is_digit_neq)

lemma parse_BIN_ok:
  assumes bin: "bin \<noteq> []" "list_all (is_digit 16) bin" and k: "length pre = k"
    and buf: "buf = pre @ (''BIN_0x'' @ bin) @ CHR '','' # post"
  shows "parse_BIN buf k =
           Inr (word_of_int (min LONG_MAX (int (numval 16 bin))),
                pre @ (''BIN_0x'' @ bin) @ NUL # post, Suc (k + length (''BIN_0x'' @ bin)))"
proof -
  have tok: "list_all (\<lambda>c. c \<noteq> CHR '','' \<and> c \<noteq> NUL) (''BIN_0x'' @ bin)"
    using list_all_digit_tok [OF bin(2)] by (simp add: NUL_def)
  have st: "strtok buf k = (Some k, pre @ (''BIN_0x'' @ bin) @ NUL # post, Suc (k + length (''BIN_0x'' @ bin)))"
    unfolding buf by (rule strtok_comma [OF _ tok k]) simp
  have dr: "drop (k + 6) (pre @ (''BIN_0x'' @ bin) @ NUL # post) = bin @ NUL # post"
    using k by simp
  have sl: "strtol 16 (bin @ NUL # post) = Some (min LONG_MAX (int (numval 16 bin)))"
    by (rule strtol_digits [OF bin]) (simp_all add: not_digit_char0 NUL_def)
  show ?thesis
    unfolding parse_BIN_def st by (simp only: prod.case Let_def option.case dr sl)
qed

lemma parse_int_comma:
  assumes ds: "ds \<noteq> []" "list_all (is_digit 10) ds" and k: "length pre = k"
    and buf: "buf = pre @ ds @ CHR '','' # post"
  shows "parse_int buf k =
           Inr (word_of_int (min LONG_MAX (int (numval 10 ds))), pre @ ds @ NUL # post,
                Suc (k + length ds))"
proof -
  have st: "strtok buf k = (Some k, pre @ ds @ NUL # post, Suc (k + length ds))"
    unfolding buf by (rule strtok_comma [OF ds(1) list_all_digit_tok [OF ds(2)] k])
  have dr: "drop k (pre @ ds @ NUL # post) = ds @ NUL # post"
    using k by simp
  have sl: "strtol 10 (ds @ NUL # post) = Some (min LONG_MAX (int (numval 10 ds)))"
    by (rule strtol_digits [OF ds]) (simp_all add: not_digit_char0 NUL_def)
  show ?thesis
    unfolding parse_int_def st atoi_def
    by (simp only: prod.case Let_def option.case dr sl option.map)
qed

lemma parse_int_last:
  assumes ds: "ds \<noteq> []" "list_all (is_digit 10) ds" and k: "length pre = k"
    and buf: "buf = pre @ (ds @ [CHR 0x0D, CHR 0x0A]) @ NUL # post"
  shows "parse_int buf k =
           Inr (word_of_int (min LONG_MAX (int (numval 10 ds))), buf, k + length (ds @ [CHR 0x0D, CHR 0x0A]))"
proof -
  have tok: "list_all (\<lambda>c. c \<noteq> CHR '','' \<and> c \<noteq> NUL) (ds @ [CHR 0x0D, CHR 0x0A])"
    using list_all_digit_tok [OF ds(2)] by (simp add: NUL_def)
  have st: "strtok buf k = (Some k, buf, k + length (ds @ [CHR 0x0D, CHR 0x0A]))"
    unfolding buf by (rule strtok_last [OF _ tok k]) simp
  have dr: "drop k buf = ds @ CHR 0x0D # (CHR 0x0A # NUL # post)"
    using k by (simp add: buf)
  have sl: "strtol 10 (ds @ CHR 0x0D # (CHR 0x0A # NUL # post)) = Some (min LONG_MAX (int (numval 10 ds)))"
    by (rule strtol_digits [OF ds]) (simp_all add: not_digit_special)
  show ?thesis
    unfolding parse_int_def st atoi_def
    by (simp only: prod.case Let_def option.case dr sl option.map)
qed

lemma parse_name_ok:
  assumes nm: "list_all (\<lambda>c. c \<noteq> CHR '','' \<and> c \<noteq> NUL \<and> c \<noteq> CHR 0x0A) name"
    and fs: "strstr name ''files/'' \<noteq> None"
    and len: "length (downloadURL g @ downloadPath g @ name) < MAX_URL_LENGTH"
      "length (destFolder g @ name_tail name) < MAX_PATH"
    and buf: "buf = name @ CHR '','' # post"
  shows "parse_name g buf =
           Inr (downloadURL g @ downloadPath g @ name, destFolder g @ name_tail name,
                name @ NUL # post, Suc (length name))"
proof -
  from fs obtain i where i: "strstr name ''files/'' = Some i" by auto
  from strstr_Some [OF i] have i6: "i + 6 \<le> length name" by simp
  then have ne: "name \<noteq> []" by auto
  have tok: "list_all (\<lambda>c. c \<noteq> CHR '','' \<and> c \<noteq> NUL) name"
    using nm by (auto simp: list_all_iff)
  have nul: "list_all (\<lambda>c. c \<noteq> NUL) name"
    using nm by (auto simp: list_all_iff)
  have st: "strtok buf 0 = (Some 0, name @ NUL # post, Suc (length name))"
    unfolding buf using strtok_comma [OF ne tok, of "[]" 0 post] by simp
  have c0: "cstr (name @ NUL # post) 0 = name"
    using cstr_inside [OF nul, of 0 "[]" post] by simp
  have c5: "cstr (name @ NUL # post) (i + 5) = drop (i + 5) name"
    using cstr_inside [OF nul, of "i + 5" "[]" post] i6 by simp
  have nt: "name_tail name = drop (i + 5) name"
    by (simp add: name_tail_def i)
  show ?thesis
    unfolding parse_name_def st
    using len by (simp add: Let_def c0 c5 i nt del: strstr.simps)
qed

subsection \<open>One well-shaped line\<close>

lemma word_of_small:
  assumes "n < 2 ^ 31"
  shows "(word_of_int (min LONG_MAX (int n)) :: u32) = of_nat n"
proof -
  from assms have "int n \<le> LONG_MAX" by (simp add: LONG_MAX_def)
  then have "min LONG_MAX (int n) = int n" by simp
  then show ?thesis by simp
qed

lemma bin_less: "n < MAX_BIN_COUNT \<Longrightarrow> (of_nat n :: u32) < of_nat MAX_BIN_COUNT"
  by (simp add: MAX_BIN_COUNT_def word_less_nat_alt unat_of_nat)

lemma numval_snoc:
  "numval b (ds @ [c]) = numval b ds * b + (case digit_val c of None \<Rightarrow> 0 | Some d \<Rightarrow> d)"
  by (simp add: numval_def)

lemma numval_bound: "list_all (is_digit b) ds \<Longrightarrow> numval b ds < b ^ length ds"
proof (induction ds rule: rev_induct)
  case Nil
  then show ?case by (simp add: numval_def)
next
  case (snoc c ds)
  then have ih: "numval b ds < b ^ length ds" and c: "is_digit b c" by auto
  from c obtain d where d: "digit_val c = Some d" "d < b"
    by (auto simp: is_digit_def split: option.splits)
  from ih have "Suc (numval b ds) \<le> b ^ length ds" by simp
  then have "Suc (numval b ds) * b \<le> b ^ length ds * b" by (rule mult_le_mono1)
  with d(2) have "numval b ds * b + d < b ^ length ds * b" by simp
  then show ?case by (simp add: numval_snoc d mult.commute)
qed

lemma word_of_long:
  assumes "n < 2 ^ 32"
  shows "(word_of_int (min LONG_MAX (int n)) :: u32) = of_nat n"
proof -
  from assms have "int n < 2 ^ 32" by (metis of_nat_less_iff of_nat_numeral of_nat_power)
  then have "int n \<le> LONG_MAX" by (simp add: LONG_MAX_def)
  then have "min LONG_MAX (int n) = int n" by simp
  then show ?thesis by simp
qed

lemma bin_less_iff:
  "n < 2 ^ 32 \<Longrightarrow> ((of_nat n :: u32) < of_nat MAX_BIN_COUNT) = (n < MAX_BIN_COUNT)"
  by (simp add: MAX_BIN_COUNT_def word_less_nat_alt unat_of_nat)

lemma well_shaped_tagged: "well_shaped g l \<Longrightarrow> well_tagged g l"
  by (auto simp: well_shaped_def well_tagged_def)

lemma stored_BIN_small:
  assumes "stored_BIN ds < of_nat MAX_BIN_COUNT"
  shows "stored_BIN ds = of_nat (numval 16 ds)"
proof (cases "int (numval 16 ds) \<le> LONG_MAX")
  case True
  then have "min LONG_MAX (int (numval 16 ds)) = int (numval 16 ds)" by simp
  then show ?thesis by (simp add: stored_BIN_def)
next
  case False
  then have "min LONG_MAX (int (numval 16 ds)) = LONG_MAX" by simp
  then have "stored_BIN ds = word_of_int (2 ^ 63 - 1)" by (simp add: stored_BIN_def LONG_MAX_def)
  also have "\<dots> = (4294967295 :: u32)" by simp
  finally have "\<not> stored_BIN ds < of_nat MAX_BIN_COUNT"
    by (simp add: MAX_BIN_COUNT_def word_less_nat_alt)
  with assms show ?thesis by simp
qed

lemma stored_BIN_short:
  assumes "list_all (is_digit 16) ds" "length ds \<le> 8"
  shows "stored_BIN ds = of_nat (numval 16 ds)" "unat (stored_BIN ds) = numval 16 ds"
proof -
  have "(16 :: nat) ^ length ds \<le> 16 ^ 8" using assms(2) by (rule power_increasing) simp
  with numval_bound [OF assms(1)] have nb: "numval 16 ds < 2 ^ 32" by simp
  show "stored_BIN ds = of_nat (numval 16 ds)"
    unfolding stored_BIN_def by (rule word_of_long [OF nb])
  then show "unat (stored_BIN ds) = numval 16 ds"
    using nb by (simp add: unat_of_nat)
qed

lemma parse_line_tagged:
  assumes ws: "well_tagged g l"
  shows "parse_line g (line_text l @ NUL # stale) =
           (if stored_BIN (m_bin l) < of_nat MAX_BIN_COUNT then Inr (entry_of g l, line_after l stale)
            else Inl AssertFail)"
proof -
  let ?name = "m_name l" and ?bin = "m_bin l" and ?off = "m_offset l" and ?sz = "m_size l"
    and ?unk = "m_unk l"
  let ?p4 = "(?unk @ [CHR 0x0D, CHR 0x0A]) @ NUL # stale"
  let ?p3 = "?sz @ CHR '','' # ?p4"
  let ?p2 = "?off @ CHR '','' # ?p3"
  let ?p1 = "(''BIN_0x'' @ ?bin) @ CHR '','' # ?p2"
  from ws have nm: "list_all (\<lambda>c. c \<noteq> CHR '','' \<and> c \<noteq> NUL \<and> c \<noteq> CHR 0x0A) ?name"
    and fs: "strstr ?name ''files/'' \<noteq> None"
    and bin: "?bin \<noteq> []" "list_all (is_digit 16) ?bin"
    and off: "?off \<noteq> []" "list_all (is_digit 10) ?off" "numval 10 ?off < 2 ^ 31"
    and sz: "?sz \<noteq> []" "list_all (is_digit 10) ?sz" "numval 10 ?sz < 2 ^ 31"
    and unk: "?unk \<noteq> []" "list_all (is_digit 10) ?unk" "numval 10 ?unk < 2 ^ 31"
    and len: "length (downloadURL g @ downloadPath g @ ?name) < MAX_URL_LENGTH"
      "length (destFolder g @ name_tail ?name) < MAX_PATH"
    by (auto simp: well_tagged_def is_number_def)
  have b0: "line_text l @ NUL # stale = ?name @ CHR '','' # ?p1"
    by (simp add: line_text_def)
  note s1 = parse_name_ok [OF nm fs len b0]
  let ?k1 = "Suc (length ?name)"
  have s2: "parse_BIN (?name @ NUL # ?p1) ?k1 =
      Inr (word_of_int (min LONG_MAX (int (numval 16 ?bin))),
           (?name @ [NUL]) @ (''BIN_0x'' @ ?bin) @ NUL # ?p2, Suc (?k1 + length (''BIN_0x'' @ ?bin)))"
    by (rule parse_BIN_ok [OF bin(1,2)]) simp_all
  let ?k2 = "Suc (?k1 + length (''BIN_0x'' @ ?bin))"
  let ?pre2 = "(?name @ [NUL]) @ (''BIN_0x'' @ ?bin) @ [NUL]"
  have s3: "parse_int ((?name @ [NUL]) @ (''BIN_0x'' @ ?bin) @ NUL # ?p2) ?k2 =
      Inr (word_of_int (min LONG_MAX (int (numval 10 ?off))), ?pre2 @ ?off @ NUL # ?p3,
           Suc (?k2 + length ?off))"
    by (rule parse_int_comma [OF off(1,2)]) simp_all
  let ?k3 = "Suc (?k2 + length ?off)"
  let ?pre3 = "?pre2 @ ?off @ [NUL]"
  have s4: "parse_int (?pre2 @ ?off @ NUL # ?p3) ?k3 =
      Inr (word_of_int (min LONG_MAX (int (numval 10 ?sz))), ?pre3 @ ?sz @ NUL # ?p4,
           Suc (?k3 + length ?sz))"
    by (rule parse_int_comma [OF sz(1,2)]) simp_all
  let ?k4 = "Suc (?k3 + length ?sz)"
  let ?pre4 = "?pre3 @ ?sz @ [NUL]"
  have s5: "parse_int (?pre3 @ ?sz @ NUL # ?p4) ?k4 =
      Inr (word_of_int (min LONG_MAX (int (numval 10 ?unk))), ?pre3 @ ?sz @ NUL # ?p4,
           ?k4 + length (?unk @ [CHR 0x0D, CHR 0x0A]))"
    by (rule parse_int_last [OF unk(1,2), where pre = ?pre4]) simp_all
  have sb: "word_of_int (min LONG_MAX (int (numval 16 ?bin))) = stored_BIN ?bin"
    by (simp add: stored_BIN_def)
  have fin: "?pre3 @ ?sz @ NUL # ?p4 = line_after l stale"
    by (simp add: line_after_def)
  show ?thesis
  proof (cases "stored_BIN ?bin < of_nat MAX_BIN_COUNT")
    case True
    then show ?thesis
      unfolding parse_line_def s1
      apply (simp only: sum.case prod.case s2 sb not_not if_True if_False)
      apply (simp only: sum.case prod.case s3 s4 s5 word_of_small [OF off(3)] word_of_small [OF sz(3)]
         word_of_small [OF unk(3)])
      apply (simp only: fin entry_of_def stored_BIN_small [OF True])
      apply simp
      done
  next
    case False
    then show ?thesis
      unfolding parse_line_def s1
      by (simp only: sum.case prod.case s2 sb if_True if_False not_False_eq_True)
  qed
qed

lemma parse_line_shaped:
  assumes ws: "well_shaped g l"
  shows "parse_line g (line_text l @ NUL # stale) =
           (if numval 16 (m_bin l) < MAX_BIN_COUNT then Inr (entry_of g l, line_after l stale)
            else Inl AssertFail)"
proof -
  from ws have bin: "list_all (is_digit 16) (m_bin l)" "length (m_bin l) \<le> 8"
    by (auto simp: well_shaped_def)
  have "(16 :: nat) ^ length (m_bin l) \<le> 16 ^ 8" using bin(2) by (rule power_increasing) simp
  with numval_bound [OF bin(1)] have nb: "numval 16 (m_bin l) < 2 ^ 32" by simp
  show ?thesis
    unfolding parse_line_tagged [OF well_shaped_tagged [OF ws]] stored_BIN_short(1) [OF bin]
      bin_less_iff [OF nb] ..
qed

lemma parse_line_ok:
  assumes wf: "well_formed g l"
  shows "parse_line g (line_text l @ NUL # stale) = Inr (entry_of g l, line_after l stale)"
  using wf parse_line_shaped [of g l stale] by (simp add: well_formed_def)

subsection \<open>The loop over well-formed lines\<close>

lemma first_line_append_newline:
  "CHR 0x0A \<notin> set xs \<Longrightarrow> first_line (xs @ CHR 0x0A # rest) = xs @ [CHR 0x0A]"
  by (induction xs) auto

lemma digits_no_newline: "list_all (is_digit b) ds \<Longrightarrow> CHR 0x0A \<notin> set ds"
  by (auto simp: list_all_iff dest: is_digit_neq(3))

lemma digits_no_NUL: "list_all (is_digit b) ds \<Longrightarrow> NUL \<notin> set ds"
  by (auto simp: list_all_iff dest: is_digit_neq(2))

lemma line_text_newline:
  assumes wf: "well_tagged g l"
  shows "\<exists>xs. line_text l = xs @ [CHR 0x0A] \<and> CHR 0x0A \<notin> set xs \<and> NUL \<notin> set xs"
proof -
  let ?xs = "m_name l @ '','' @ ''BIN_0x'' @ m_bin l @ '','' @ m_offset l @ '','' @ m_size l @ '',''
       @ m_unk l @ [CHR 0x0D]"
  from wf have "CHR 0x0A \<notin> set (m_name l)" "NUL \<notin> set (m_name l)"
    by (auto simp: well_tagged_def list_all_iff)
  moreover from wf have "CHR 0x0A \<notin> set (m_bin l)" "CHR 0x0A \<notin> set (m_offset l)"
    "CHR 0x0A \<notin> set (m_size l)" "CHR 0x0A \<notin> set (m_unk l)"
    by (auto simp: well_tagged_def is_number_def dest: digits_no_newline)
  moreover from wf have "NUL \<notin> set (m_bin l)" "NUL \<notin> set (m_offset l)"
    "NUL \<notin> set (m_size l)" "NUL \<notin> set (m_unk l)"
    by (auto simp: well_tagged_def is_number_def dest: digits_no_NUL)
  ultimately have "CHR 0x0A \<notin> set ?xs \<and> NUL \<notin> set ?xs" by (simp add: NUL_def)
  moreover have "line_text l = ?xs @ [CHR 0x0A]" by (simp add: line_text_def)
  ultimately show ?thesis by blast
qed

lemma fgets_exact:
  assumes "CHR 0x0A \<notin> set xs" "length (xs @ [CHR 0x0A]) < k"
  shows "fgets buf k ((xs @ [CHR 0x0A]) @ rest) =
           Some ((xs @ [CHR 0x0A]) @ NUL # drop (Suc (length (xs @ [CHR 0x0A]))) buf, rest)"
  using assms
  by (simp add: fgets_def Let_def fgets_chars_first_line first_line_append_newline)

lemma fgets_line:
  assumes wf: "well_tagged g l"
  shows "fgets buf MAX_LINE_LENGTH (line_text l @ rest) =
           Some (line_text l @ NUL # drop (Suc (length (line_text l))) buf, rest)"
proof -
  from line_text_newline [OF wf] obtain xs where
    xs: "line_text l = xs @ [CHR 0x0A]" "CHR 0x0A \<notin> set xs" by blast
  from wf have "length (xs @ [CHR 0x0A]) < MAX_LINE_LENGTH"
    by (simp add: well_tagged_def xs(1) [symmetric])
  from fgets_exact [OF xs(2) this] show ?thesis by (simp only: xs(1) [symmetric])
qed

lemma cstr_line_text:
  assumes wf: "well_tagged g l"
  shows "cstr (line_text l @ NUL # stale) 0 = line_text l"
proof -
  from line_text_newline [OF wf] have "NUL \<notin> set (line_text l)"
    by (auto simp: NUL_def)
  then show ?thesis by (simp add: cstr_def takeWhile_append)
qed

lemma parse_line_accepted:
  assumes "accepted g l"
  shows "parse_line g (line_text l @ NUL # stale) = Inr (entry_of g l, line_after l stale)"
proof -
  from assms have ws: "well_tagged g l" and "stored_BIN (m_bin l) < of_nat MAX_BIN_COUNT"
    by (simp_all add: accepted_def MAX_BIN_COUNT_def word_less_nat_alt)
  with parse_line_tagged [OF ws, of stale] show ?thesis by simp
qed

lemma well_formed_accepted: "well_formed g l \<Longrightarrow> accepted g l"
  using stored_BIN_short(2) [of "m_bin l"]
  by (simp add: well_formed_def accepted_def well_shaped_tagged) (simp add: well_shaped_def)

lemma parse_loop_accepted:
  assumes "list_all (accepted g) ls"
  shows "\<exists>buf'. parse_loop g buf (concat (map line_text ls) @ rest) acc =
                 parse_loop g buf' rest (foldl (add_line g) acc ls)"
  using assms
proof (induction ls arbitrary: buf acc)
  case Nil
  then show ?case by auto
next
  case (Cons l ls)
  then have wf: "accepted g l" and wfs: "list_all (accepted g) ls" by auto
  from wf have ws: "well_tagged g l" by (simp add: accepted_def)
  let ?line = "line_text l @ NUL # drop (Suc (length (line_text l))) buf"
  let ?inp = "concat (map line_text ls) @ rest"
  have fg: "fgets buf MAX_LINE_LENGTH (concat (map line_text (l # ls)) @ rest) = Some (?line, ?inp)"
    using fgets_line [OF ws, of buf ?inp] by simp
  note pl = parse_line_accepted [OF wf, of "drop (Suc (length (line_text l))) buf"]
  have step: "parse_loop g buf (concat (map line_text (l # ls)) @ rest) acc =
      parse_loop g (line_after l (drop (Suc (length (line_text l))) buf)) ?inp (add_line g acc l)"
    by (subst parse_loop.simps) (simp only: fg option.case prod.case pl sum.case add_line_def cstr_line_text [OF ws])
  from Cons.IH [OF wfs] obtain buf' where
    "parse_loop g (line_after l (drop (Suc (length (line_text l))) buf)) ?inp (add_line g acc l) =
       parse_loop g buf' rest (foldl (add_line g) (add_line g acc l) ls)"
    by blast
  with step show ?case by auto
qed

lemma parse_loop_lines:
  assumes "list_all (well_formed g) ls"
  shows "\<exists>buf'. parse_loop g buf (concat (map line_text ls) @ rest) acc =
                 parse_loop g buf' rest (foldl (add_line g) acc ls)"
proof (rule parse_loop_accepted)
  from assms show "list_all (accepted g) ls"
    by (auto simp: list_all_iff intro: well_formed_accepted)
qed

lemma parse_loop_end: "parse_loop g buf [] acc = Inr acc"
  by (subst parse_loop.simps) (simp add: fgets_def)

lemma p_files_foldl: "p_files (foldl (add_line g) acc ls) = p_files acc @ map (entry_of g) ls"
  by (induction ls arbitrary: acc) (auto simp: add_line_def)

lemma fileCount_foldl: "fileCount (foldl (add_line g) acc ls) = fileCount acc + of_nat (length ls)"
  by (induction ls arbitrary: acc) (auto simp: add_line_def)

lemma nth_set_True: "x < length xs \<Longrightarrow> xs[n := True] ! x = (n = x \<or> xs ! x)"
  by (cases "n = x") auto

lemma hasBIN_foldl:
  assumes "list_all (well_formed g) ls"
  shows "hasBIN (foldl (add_line g) acc ls) =
           map (\<lambda>i. hasBIN acc ! i \<or> i \<in> (\<lambda>l. numval 16 (m_bin l)) ` set ls) [0..<length (hasBIN acc)]"
  using assms
proof (induction ls arbitrary: acc)
  case Nil
  then show ?case by (simp add: map_nth)
next
  case (Cons l ls)
  then have wf: "well_formed g l" and wfs: "list_all (well_formed g) ls" by auto
  from wf have "numval 16 (m_bin l) < 32" by (simp add: well_formed_def MAX_BIN_COUNT_def)
  then have u: "unat (BIN (entry_of g l)) = numval 16 (m_bin l)"
    by (simp add: entry_of_def unat_of_nat)
  have h: "hasBIN (add_line g acc l) = (hasBIN acc)[numval 16 (m_bin l) := True]"
    by (simp add: add_line_def u)
  show ?case
    unfolding foldl_Cons Cons.IH [OF wfs] h
    by (auto simp: nth_set_True)
qed

text \<open>
  C2.  A manifest made of the header and \<open>N\<close> well-formed lines parses to exactly \<open>N\<close> file
  descriptors, the \<open>k\<close>-th being the one the \<open>k\<close>-th line stands for, and \<open>hasBIN\<close> is set
  exactly at the archive identifiers the lines name.
\<close>

theorem parse_well_formed_manifest:
  assumes "list_all (well_formed g) ls"
  shows "\<exists>p. parse_packagemanifest g line0 (PKG1 @ concat (map line_text ls)) w = Inr p \<and>
             p_files p = map (entry_of g) ls \<and> length (p_files p) = length ls \<and>
             hasBIN p = map (\<lambda>i. i \<in> (\<lambda>l. numval 16 (m_bin l)) ` set ls) [0..<MAX_BIN_COUNT] \<and>
             fileCount p = of_nat (length ls)"
proof -
  let ?inp = "concat (map line_text ls)"
  have hd: "fgets line0 MAX_LINE_LENGTH (PKG1 @ ?inp) = Some (PKG1 @ NUL # drop (Suc (length PKG1)) line0, ?inp)"
    using fgets_exact [of "''PKG1'' @ [CHR 0x0D]" MAX_LINE_LENGTH line0 ?inp]
    by (simp add: PKG1_def MAX_LINE_LENGTH_def)
  have c: "cstr (PKG1 @ NUL # drop (Suc (length PKG1)) line0) 0 = PKG1"
    by (simp add: cstr_def PKG1_def NUL_def)
  from parse_loop_lines [OF assms, of "PKG1 @ NUL # drop (Suc (length PKG1)) line0" "[]" parsed_init]
  obtain buf' where
    "parse_loop g (PKG1 @ NUL # drop (Suc (length PKG1)) line0) ?inp parsed_init =
       parse_loop g buf' [] (foldl (add_line g) parsed_init ls)" by auto
  then have l: "parse_loop g (PKG1 @ NUL # drop (Suc (length PKG1)) line0) ?inp parsed_init =
       Inr (foldl (add_line g) parsed_init ls)" by (simp add: parse_loop_end)
  have "parse_packagemanifest g line0 (PKG1 @ ?inp) w = Inr (foldl (add_line g) parsed_init ls)"
    unfolding parse_packagemanifest_def by (simp only: hd option.case prod.case c l sum.case) simp
  moreover have "hasBIN (foldl (add_line g) parsed_init ls) =
      map (\<lambda>i. i \<in> (\<lambda>l. numval 16 (m_bin l)) ` set ls) [0..<MAX_BIN_COUNT]"
    unfolding hasBIN_foldl [OF assms] by (simp add: parsed_init_def)
  ultimately show ?thesis
    by (simp add: p_files_foldl fileCount_foldl parsed_init_def)
qed

lemma wf_a: "well_formed options_default line_a" by (simp add: wf_defs line_a_def)
lemma wf_b: "well_formed options_default line_b" by (simp add: wf_defs line_b_def)
lemma ws_bad: "well_shaped options_default line_bad" by (simp add: wf_defs line_bad_def)
lemma big_bad: "32 \<le> numval 16 (m_bin line_bad)" by (simp add: wf_defs line_bad_def)

lemma example_entries: "map fileName (map (entry_of options_default) [line_a, line_b]) = [''lol/x/a.z'', ''lol/x/b.z'']"
    "map BIN (map (entry_of options_default) [line_a, line_b]) = [1, 31]"
    "map size_e (map (entry_of options_default) [line_a, line_b]) = [10, 20]"
  by (simp_all add: entry_of_def wf_defs line_a_def line_b_def)

lemma example_hasBIN: "map (\<lambda>i. i \<in> (\<lambda>l. numval 16 (m_bin l)) ` set [line_a, line_b]) [0..<MAX_BIN_COUNT] =
           map (\<lambda>i. i = 1 \<or> i = 31) [0..<32]"
  by (simp add: wf_defs line_a_def line_b_def eq_commute)

theorem parse_well_formed_manifest_witness:
  "list_all (well_formed options_default) [line_a, line_b] \<and>
   (\<exists>p. parse_packagemanifest options_default [] (PKG1 @ concat (map line_text [line_a, line_b]))
           (world_with []) = Inr p \<and>
        map fileName (p_files p) = [''lol/x/a.z'', ''lol/x/b.z''] \<and>
        map BIN (p_files p) = [1, 31] \<and> map size_e (p_files p) = [10, 20] \<and>
        hasBIN p = map (\<lambda>i. i = 1 \<or> i = 31) [0..<32])"
proof -
  have wf: "list_all (well_formed options_default) [line_a, line_b]"
    using wf_a wf_b by simp
  from parse_well_formed_manifest [OF wf, of "[]" "world_with []"]
  obtain p where p: "parse_packagemanifest options_default [] (PKG1 @ concat (map line_text [line_a, line_b]))
           (world_with []) = Inr p" "p_files p = map (entry_of options_default) [line_a, line_b]"
     "hasBIN p = map (\<lambda>i. i \<in> (\<lambda>l. numval 16 (m_bin l)) ` set [line_a, line_b]) [0..<MAX_BIN_COUNT]"
    by blast
  have q: "map fileName (p_files p) = [''lol/x/a.z'', ''lol/x/b.z'']"
    "map BIN (p_files p) = [1, 31]" "map size_e (p_files p) = [10, 20]"
    "hasBIN p = map (\<lambda>i. i = 1 \<or> i = 31) [0..<32]"
    unfolding p(2) p(3) by (rule example_entries example_hasBIN)+
  show ?thesis
    by (intro conjI exI [of _ p]) (rule wf p(1) q)+
qed

subsection \<open>The bound on the archive identifier\<close>

lemma parse_line_BIN_bound:
  assumes "parse_line g line = Inr (e, line')"
  shows "BIN e < of_nat MAX_BIN_COUNT"
  using assms unfolding parse_line_def
  by (auto split: sum.splits prod.splits if_splits)

lemma parse_loop_BIN_bound:
  assumes "parse_loop g buf inp acc = Inr p"
    and "list_all (\<lambda>e. BIN e < of_nat MAX_BIN_COUNT) (p_files acc)"
  shows "list_all (\<lambda>e. BIN e < of_nat MAX_BIN_COUNT) (p_files p)"
  using assms
proof (induction g buf inp acc rule: parse_loop.induct)
  case (1 g line inp acc)
  show ?case
  proof (cases "fgets line MAX_LINE_LENGTH inp")
    case None
    with "1.prems" show ?thesis by (simp add: parse_loop.simps)
  next
    case (Some a)
    obtain line' inp' where a: "a = (line', inp')" by (cases a)
    show ?thesis
    proof (cases "parse_line g line'")
      case (Inl e)
      with Some a "1.prems"(1) show ?thesis by (simp add: parse_loop.simps)
    next
      case (Inr r)
      obtain entry line'' where r: "r = (entry, line'')" by (cases r)
      let ?acc = "acc\<lparr>p_files := p_files acc @ [entry],
                      hasBIN := (hasBIN acc)[unat (BIN entry) := True],
                      fileCount := fileCount acc + 1,
                      totalSize := totalSize acc + size_e entry,
                      maxLineLength := max (maxLineLength acc) (length (cstr line' 0))\<rparr>"
      from Some a Inr r "1.prems"(1) have run: "parse_loop g line'' inp' ?acc = Inr p"
        by (simp add: parse_loop.simps [of g line inp acc])
      from parse_line_BIN_bound [OF Inr [unfolded r]] "1.prems"(2)
      have "list_all (\<lambda>e. BIN e < of_nat MAX_BIN_COUNT) (p_files ?acc)" by simp
      from "1.IH" [OF Some [unfolded a] refl Inr [unfolded r] refl run this]
      show ?thesis .
    qed
  qed
qed

lemma parse_manifest_BIN_bound:
  assumes "parse_packagemanifest g line0 inp w = Inr p"
  shows "list_all (\<lambda>e. BIN e < of_nat MAX_BIN_COUNT) (p_files p)"
proof -
  from assms obtain line inp' where "parse_loop g line inp' parsed_init = Inr p"
    unfolding parse_packagemanifest_def
    by (auto split: option.splits if_splits sum.splits)
  from parse_loop_BIN_bound [OF this] show ?thesis by (simp add: parsed_init_def)
qed

lemma parse_loop_abort:
  assumes ws: "well_tagged g l" and big: "MAX_BIN_COUNT \<le> unat (stored_BIN (m_bin l))"
  shows "parse_loop g buf (line_text l @ rest) acc = Inl AssertFail"
proof -
  from big have "\<not> stored_BIN (m_bin l) < of_nat MAX_BIN_COUNT"
    by (simp add: MAX_BIN_COUNT_def word_less_nat_alt)
  then have "parse_line g (line_text l @ NUL # drop (Suc (length (line_text l))) buf) = Inl AssertFail"
    using parse_line_tagged [OF ws] by simp
  then show ?thesis
    by (subst parse_loop.simps) (simp only: fgets_line [OF ws] option.case prod.case sum.case)
qed

lemma header_read:
  "fgets line0 MAX_LINE_LENGTH (PKG1 @ inp) = Some (PKG1 @ NUL # drop (Suc (length PKG1)) line0, inp)"
  "cstr (PKG1 @ NUL # drop (Suc (length PKG1)) line0) 0 = PKG1"
proof -
  show "fgets line0 MAX_LINE_LENGTH (PKG1 @ inp) = Some (PKG1 @ NUL # drop (Suc (length PKG1)) line0, inp)"
    using fgets_exact [of "''PKG1'' @ [CHR 0x0D]" MAX_LINE_LENGTH line0 inp]
    by (simp add: PKG1_def MAX_LINE_LENGTH_def)
  show "cstr (PKG1 @ NUL # drop (Suc (length PKG1)) line0) 0 = PKG1"
    by (simp add: cstr_def PKG1_def NUL_def)
qed

lemma manifest_abort:
  assumes wf: "list_all (accepted g) ls"
    and ws: "well_tagged g l" and big: "MAX_BIN_COUNT \<le> unat (stored_BIN (m_bin l))"
  shows "parse_packagemanifest g line0 (PKG1 @ concat (map line_text ls) @ line_text l @ rest) w =
           Inl (AssertFail, w)"
proof -
  let ?inp = "concat (map line_text ls) @ line_text l @ rest"
  let ?hdr = "PKG1 @ NUL # drop (Suc (length PKG1)) line0"
  from parse_loop_accepted [OF wf, of ?hdr "line_text l @ rest" parsed_init]
  have l: "parse_loop g ?hdr ?inp parsed_init = Inl AssertFail"
    by (auto simp: parse_loop_abort [OF ws big])
  show ?thesis
    unfolding parse_packagemanifest_def
    by (simp only: header_read option.case prod.case l sum.case) simp
qed

lemma manifest_accepted:
  assumes wf: "list_all (accepted g) ls"
  shows "parse_packagemanifest g line0 (PKG1 @ concat (map line_text ls)) w =
           Inr (foldl (add_line g) parsed_init ls)"
proof -
  let ?inp = "concat (map line_text ls)"
  let ?hdr = "PKG1 @ NUL # drop (Suc (length PKG1)) line0"
  from parse_loop_accepted [OF wf, of ?hdr "[]" parsed_init]
  have l: "parse_loop g ?hdr ?inp parsed_init = Inr (foldl (add_line g) parsed_init ls)"
    by (auto simp: parse_loop_end)
  show ?thesis
    unfolding parse_packagemanifest_def
    by (simp only: header_read option.case prod.case l sum.case) simp
qed

lemma accepted_BIN:
  assumes "list_all (accepted g) ls"
  shows "map BIN (map (entry_of g) ls) = map (\<lambda>l. stored_BIN (m_bin l)) ls"
proof -
  have "BIN (entry_of g l) = stored_BIN (m_bin l)" if "accepted g l" for l
  proof -
    from that have "stored_BIN (m_bin l) < of_nat MAX_BIN_COUNT"
      by (simp add: accepted_def MAX_BIN_COUNT_def word_less_nat_alt)
    from stored_BIN_small [OF this] show ?thesis by (simp add: entry_of_def)
  qed
  with assms show ?thesis by (simp add: list_all_iff)
qed

lemma stored_BIN_value:
  "unat (stored_BIN ds) = (if numval 16 ds < 2 ^ 63 then numval 16 ds mod 2 ^ 32 else 2 ^ 32 - 1)"
proof (cases "numval 16 ds < 2 ^ 63")
  case True
  then have "int (numval 16 ds) < 2 ^ 63"
    by (metis of_nat_less_iff of_nat_numeral of_nat_power)
  then have "min LONG_MAX (int (numval 16 ds)) = int (numval 16 ds)" by (simp add: LONG_MAX_def)
  then have "stored_BIN ds = of_nat (numval 16 ds)" by (simp add: stored_BIN_def)
  with True show ?thesis by (simp add: unat_of_nat)
next
  case False
  then have "(2 :: int) ^ 63 \<le> int (numval 16 ds)"
    by (metis not_less of_nat_le_iff of_nat_numeral of_nat_power)
  then have "min LONG_MAX (int (numval 16 ds)) = LONG_MAX" by (simp add: LONG_MAX_def)
  then have "stored_BIN ds = word_of_int (2 ^ 63 - 1)" by (simp add: stored_BIN_def LONG_MAX_def)
  also have "\<dots> = (4294967295 :: u32)" by simp
  finally show ?thesis using False by simp
qed

text \<open>
  C8, amended.  Every descriptor of a manifest that parses has an archive identifier below
  32.  The identifier the bound is applied to is the stored one: the hexadecimal value of the
  tag's digits, saturated at \<open>LONG_MAX\<close> and reduced modulo \<open>2\<^sup>3\<^sup>2\<close>.  After the header and any
  number of accepted lines, a line in the five-field format whose stored identifier is 32 or
  more fails the assertion of line 538: the parse and the whole of
  \<open>get_files_using_packagemanifest\<close> abort, with the world untouched.  Lines whose stored
  identifier is below 32 are all parsed, each to the descriptor it stands for, with the stored
  identifier as its archive.  For a tag of at most eight digits the stored identifier is the
  hexadecimal value itself.
\<close>

theorem stored_archive_id_below_32:
  "(parse_packagemanifest g line0 inp w = Inr p \<longrightarrow>
      list_all (\<lambda>e. unat (BIN e) < 32) (p_files p)) \<and>
   (list_all (accepted g) ls \<and> well_tagged g l \<and> 32 \<le> unat (stored_BIN (m_bin l)) \<longrightarrow>
      parse_packagemanifest g line0 (PKG1 @ concat (map line_text ls) @ line_text l @ rest) w =
        Inl (AssertFail, w) \<and>
      get_files_using_packagemanifest g s n inflate line0
          (PKG1 @ concat (map line_text ls) @ line_text l @ rest) w = Inl (AssertFail, w)) \<and>
   (list_all (accepted g) ls \<longrightarrow>
      (\<exists>p'. parse_packagemanifest g line0 (PKG1 @ concat (map line_text ls)) w = Inr p' \<and>
            p_files p' = map (entry_of g) ls \<and>
            map BIN (p_files p') = map (\<lambda>l. stored_BIN (m_bin l)) ls)) \<and>
   (list_all (is_digit 16) ds \<and> length ds \<le> 8 \<longrightarrow> unat (stored_BIN ds) = numval 16 ds) \<and>
   unat (stored_BIN ds') = (if numval 16 ds' < 2 ^ 63 then numval 16 ds' mod 2 ^ 32 else 2 ^ 32 - 1)"
proof -
  have a: "list_all (\<lambda>e. unat (BIN e) < 32) (p_files p)"
    if "parse_packagemanifest g line0 inp w = Inr p"
    using parse_manifest_BIN_bound [OF that]
    by (simp add: MAX_BIN_COUNT_def word_less_nat_alt)
  have b: "parse_packagemanifest g line0 (PKG1 @ concat (map line_text ls) @ line_text l @ rest) w =
        Inl (AssertFail, w)"
    if "list_all (accepted g) ls" "well_tagged g l" "32 \<le> unat (stored_BIN (m_bin l))"
    using manifest_abort [OF that(1,2)] that(3) by (simp add: MAX_BIN_COUNT_def)
  have c: "\<exists>p'. parse_packagemanifest g line0 (PKG1 @ concat (map line_text ls)) w = Inr p' \<and>
            p_files p' = map (entry_of g) ls \<and>
            map BIN (p_files p') = map (\<lambda>l. stored_BIN (m_bin l)) ls"
    if "list_all (accepted g) ls"
    using manifest_accepted [OF that] accepted_BIN [OF that]
    by (simp add: p_files_foldl parsed_init_def)
  have d: "unat (stored_BIN ds) = numval 16 ds"
    if "list_all (is_digit 16) ds" "length ds \<le> 8"
    using that by (rule stored_BIN_short(2))
  from a b c d stored_BIN_value [of ds'] show ?thesis
    by (simp add: get_files_using_packagemanifest_def)
qed

lemma acc_a: "accepted options_default line_a" by (rule well_formed_accepted [OF wf_a])

lemma wt_wrap: "well_tagged options_default line_wrap"
  by (simp add: well_tagged_def wf_defs line_wrap_def)

lemma numval_wrap: "numval 16 (m_bin line_wrap) = 4294967297"
  by (simp add: numval_def digit_val_def line_wrap_def)

lemma stored_wrap: "stored_BIN (m_bin line_wrap) = 1"
  by (simp add: stored_BIN_def numval_wrap LONG_MAX_def)

lemma acc_wrap: "accepted options_default line_wrap"
  by (simp add: accepted_def wt_wrap stored_wrap MAX_BIN_COUNT_def)

lemma wt_bad: "well_tagged options_default line_bad" by (rule well_shaped_tagged [OF ws_bad])

lemma stored_bad: "unat (stored_BIN (m_bin line_bad)) = 32"
  by (simp add: stored_BIN_def numval_def digit_val_def line_bad_def LONG_MAX_def)

theorem stored_archive_id_below_32_witness:
  "list_all (accepted options_default) [line_a, line_wrap] \<and> well_tagged options_default line_bad \<and>
   32 \<le> unat (stored_BIN (m_bin line_bad)) \<and>
   get_files_using_packagemanifest options_default sys_ok (origin []) (\<lambda>c. c) []
      (PKG1 @ concat (map line_text [line_a, line_wrap]) @ line_text line_bad @ line_text line_a)
      (world_with []) = Inl (AssertFail, world_with []) \<and>
   (\<exists>p. parse_packagemanifest options_default [] (PKG1 @ concat (map line_text [line_a, line_wrap]))
          (world_with []) = Inr p \<and>
        map BIN (p_files p) = [1, 1] \<and> list_all (\<lambda>e. unat (BIN e) < 32) (p_files p)) \<and>
   list_all (is_digit 16) ''00000020'' \<and> length ''00000020'' \<le> 8 \<and>
   unat (stored_BIN ''00000020'') = 32 \<and> unat (stored_BIN ''100000001'') = 1"
proof -
  have acc: "list_all (accepted options_default) [line_a, line_wrap]"
    using acc_a acc_wrap by simp
  have big: "32 \<le> unat (stored_BIN (m_bin line_bad))" by (simp add: stored_bad)
  note t = stored_archive_id_below_32 [where g = options_default and ?line0.0 = "[]"
      and w = "world_with []" and ls = "[line_a, line_wrap]" and l = line_bad
      and rest = "line_text line_a" and s = sys_ok and n = "origin []" and inflate = "\<lambda>c. c"
      and ds = "''00000020''" and ds' = "''100000001''"]
  have g: "get_files_using_packagemanifest options_default sys_ok (origin []) (\<lambda>c. c) []
      (PKG1 @ concat (map line_text [line_a, line_wrap]) @ line_text line_bad @ line_text line_a)
      (world_with []) = Inl (AssertFail, world_with [])"
    by (rule t [THEN conjunct2, THEN conjunct1, rule_format, THEN conjunct2])
       (intro conjI acc wt_bad big)
  from t [THEN conjunct2, THEN conjunct2, THEN conjunct1, rule_format, OF acc]
  obtain p where p: "parse_packagemanifest options_default []
      (PKG1 @ concat (map line_text [line_a, line_wrap])) (world_with []) = Inr p"
    "map BIN (p_files p) = map (\<lambda>l. stored_BIN (m_bin l)) [line_a, line_wrap]"
    by blast
  have sa: "stored_BIN (m_bin line_a) = 1"
    by (simp add: stored_BIN_def numval_def digit_val_def line_a_def LONG_MAX_def)
  from p(2) have b: "map BIN (p_files p) = [1, 1]" by (simp add: sa stored_wrap)
  have lt: "list_all (\<lambda>e. unat (BIN e) < 32) (p_files p)"
    by (rule stored_archive_id_below_32 [THEN conjunct1, rule_format, OF p(1)])
  have dg: "list_all (is_digit 16) ''00000020''" "length ''00000020'' \<le> 8"
    by (simp_all add: is_digit_def digit_val_def)
  have v1: "unat (stored_BIN ''00000020'') = 32"
    using t [THEN conjunct2, THEN conjunct2, THEN conjunct2, THEN conjunct1, rule_format] dg
    by (simp add: numval_def digit_val_def)
  have v2: "unat (stored_BIN ''100000001'') = 1"
    using t [THEN conjunct2, THEN conjunct2, THEN conjunct2, THEN conjunct2]
    by (simp add: numval_def digit_val_def)
  have ex: "\<exists>p. parse_packagemanifest options_default [] (PKG1 @ concat (map line_text [line_a, line_wrap]))
          (world_with []) = Inr p \<and>
        map BIN (p_files p) = [1, 1] \<and> list_all (\<lambda>e. unat (BIN e) < 32) (p_files p)"
    by (intro exI [of _ p] conjI) (rule p(1) b lt)+
  show ?thesis
    by (intro conjI) (rule acc wt_bad big g ex dg v1 v2)+
qed

text \<open>
  The line \<open>/p/files/x/w.z,BIN_0x100000001,0,10,0\<close> names the identifier \<open>0x100000001\<close>, which
  is not below 32, and is parsed without any failure: the \<open>unsigned int\<close> store keeps 1, and
  the file is taken from archive 1.
\<close>

theorem wrapped_archive_id_accepted:
  "line_text line_wrap = ''/p/files/x/w.z,BIN_0x100000001,0,10,0'' @ [CHR 0x0D, CHR 0x0A] \<and>
   numval 16 (m_bin line_wrap) = 4294967297 \<and>
   (\<exists>p. parse_packagemanifest options_default [] (PKG1 @ line_text line_wrap) (world_with []) = Inr p \<and>
        map BIN (p_files p) = [1] \<and> map fileName (p_files p) = [''lol/x/w.z''])"
proof -
  have acc: "list_all (accepted options_default) [line_wrap]"
    using acc_wrap by simp
  from manifest_accepted [OF acc, of "[]" "world_with []"]
  have p: "parse_packagemanifest options_default [] (PKG1 @ line_text line_wrap) (world_with []) =
      Inr (foldl (add_line options_default) parsed_init [line_wrap])"
    by simp
  have b: "map BIN (p_files (foldl (add_line options_default) parsed_init [line_wrap])) = [1]"
    by (simp add: add_line_def parsed_init_def entry_of_def numval_wrap)
  have f: "map fileName (p_files (foldl (add_line options_default) parsed_init [line_wrap])) =
      [''lol/x/w.z'']"
    by (simp add: add_line_def parsed_init_def entry_of_def wf_defs line_wrap_def)
  have t: "line_text line_wrap = ''/p/files/x/w.z,BIN_0x100000001,0,10,0'' @ [CHR 0x0D, CHR 0x0A]"
    by (simp add: line_text_def line_wrap_def)
  show ?thesis
    by (intro conjI exI [of _ "foldl (add_line options_default) parsed_init [line_wrap]"])
       (rule t numval_wrap p b f)+
qed

section \<open>Properties of the progress estimator\<close>

subsection \<open>Rounding\<close>

lemma pow2_powi: "pow2 e = 2 powi e"
  by (simp add: pow2_def power_int_def field_simps)

lemma pow2_pos: "0 < pow2 e"
  by (simp add: pow2_powi)

lemma pow2_add: "pow2 (a + b) = pow2 a * pow2 b"
  by (simp add: pow2_powi power_int_add)

lemma pow2_diff: "pow2 (a - b) = pow2 a / pow2 b"
  by (simp add: pow2_powi power_int_diff)

lemma pow2_mono: "a \<le> b \<Longrightarrow> pow2 a \<le> pow2 b"
  by (simp add: pow2_powi power_int_increasing)

lemma ilog2_le:
  assumes "0 < q"
  shows "pow2 (ilog2 q) \<le> q"
proof -
  obtain a b where ab: "quotient_of q = (a, b)" by (cases "quotient_of q")
  then have b: "0 < b" and q: "q = of_int a / of_int b"
    by (auto simp: quotient_of_denom_pos quotient_of_div)
  with assms have a: "0 < a" by (simp add: zero_less_divide_iff)
  let ?d = "bitlen a - bitlen b"
  show ?thesis
  proof (cases "pow2 ?d \<le> q")
    case True
    then show ?thesis by (simp add: ilog2_def ab)
  next
    case False
    from bitlen_bounds [OF a] have la: "(2::int) ^ nat (bitlen a - 1) \<le> a" by simp
    from bitlen_bounds [OF b] have lb: "b < 2 ^ nat (bitlen b)" by simp
    have pa: "0 < bitlen a"
    proof (rule ccontr)
      assume "\<not> 0 < bitlen a"
      then have "nat (bitlen a) = 0" by simp
      with bitlen_bounds [OF a] a show False by simp
    qed
    have pb: "0 \<le> bitlen b" by (simp add: bitlen_nonneg)
    have "pow2 (bitlen a - 1) \<le> of_int a"
    proof -
      have "pow2 (bitlen a - 1) = of_int (2 ^ nat (bitlen a - 1))"
        using pa by (simp add: pow2_def)
      also have "\<dots> \<le> of_int a" using la by (simp only: of_int_le_iff)
      finally show ?thesis .
    qed
    moreover have "of_int b \<le> pow2 (bitlen b)"
    proof -
      have "(of_int b :: rat) \<le> of_int (2 ^ nat (bitlen b))"
        using lb by (simp only: of_int_le_iff)
      also have "\<dots> = pow2 (bitlen b)" using pb by (simp add: pow2_def)
      finally show ?thesis .
    qed
    ultimately have "pow2 (bitlen a - 1) / pow2 (bitlen b) \<le> of_int a / of_int b"
      using b pow2_pos [of "bitlen b"] pow2_pos [of "bitlen a - 1"]
      by (intro frac_le) auto
    then have "pow2 (?d - 1) \<le> q"
      by (simp add: q pow2_diff [symmetric] algebra_simps)
    with False show ?thesis by (simp add: ilog2_def ab)
  qed
qed

lemma fround_pos:
  assumes q: "0 < q" and p: "0 < p"
  shows "0 < fround p q"
proof -
  let ?u = "pow2 (ilog2 \<bar>q\<bar> + 1 - int p)"
  let ?m = "\<bar>q\<bar> / ?u"
  have u: "0 < ?u" by (rule pow2_pos)
  have "pow2 (int p - 1) * ?u = pow2 (ilog2 \<bar>q\<bar>)"
    by (simp add: pow2_add [symmetric])
  also have "\<dots> \<le> \<bar>q\<bar>" using ilog2_le [of "\<bar>q\<bar>"] q by simp
  finally have "pow2 (int p - 1) \<le> ?m" using u by (simp add: pos_le_divide_eq)
  moreover have "1 \<le> pow2 (int p - 1)"
    using pow2_mono [of 0 "int p - 1"] p by (simp add: pow2_def)
  ultimately have "1 \<le> ?m" by simp
  then have f: "1 \<le> \<lfloor>?m\<rfloor>" by (simp add: le_floor_iff)
  let ?r = "if ?m - of_int \<lfloor>?m\<rfloor> < 1 / 2 then \<lfloor>?m\<rfloor>
            else if 1 / 2 < ?m - of_int \<lfloor>?m\<rfloor> then \<lfloor>?m\<rfloor> + 1
            else if even \<lfloor>?m\<rfloor> then \<lfloor>?m\<rfloor> else \<lfloor>?m\<rfloor> + 1"
  from f have "0 < ?r" by auto
  then have "0 < (of_int ?r :: rat) * ?u" using u by (simp only: zero_less_mult_iff of_int_0_less_iff) simp
  moreover have "fround p q = of_int ?r * ?u"
    using q by (simp add: fround_def Let_def)
  ultimately show ?thesis by simp
qed

lemma fround_0 [simp]: "fround p 0 = 0"
  by (simp add: fround_def)

lemma of_u32_bounds: "0 \<le> of_u32 x" "of_u32 x \<le> 4294967295"
proof -
  have "0 \<le> uint x" by simp
  then show "0 \<le> of_u32 x" unfolding of_u32_def by (simp only: of_int_0_le_iff)
  have "uint x < 2 ^ 32" using uint_bounded [of x] by simp
  then have "uint x \<le> 4294967295" by simp
  then have "(of_int (uint x) :: rat) \<le> of_int 4294967295" by (simp only: of_int_le_iff)
  then show "of_u32 x \<le> 4294967295" unfolding of_u32_def by simp
qed

lemma to_float_u32_zero_iff: "to_float (of_u32 x) = 0 \<longleftrightarrow> x = 0"
proof
  assume "to_float (of_u32 x) = 0"
  show "x = 0"
  proof (rule ccontr)
    assume "x \<noteq> 0"
    then have "0 < x" by (simp add: word_neq_0_conv)
    then have "0 < uint x" by (simp add: word_less_def)
    then have "0 < of_u32 x" unfolding of_u32_def by (simp only: of_int_0_less_iff)
    from fround_pos [OF this, of 24] \<open>to_float (of_u32 x) = 0\<close> show False
      by (simp add: to_float_def)
  qed
next
  assume "x = 0"
  then show "to_float (of_u32 x) = 0" by (simp add: to_float_def of_u32_def)
qed




lemma fround_nonneg:
  assumes "0 \<le> q" "0 < p"
  shows "0 \<le> fround p q"
  using assms fround_pos [of q p] by (cases "q = 0") (auto simp: less_imp_le)


lemma pow2_less: "a < b \<Longrightarrow> pow2 a < pow2 b"
  by (simp add: pow2_powi power_int_strict_increasing)











subsection \<open>The first two callbacks of a transfer\<close>

lemma first_callback:
  "progress_callback 5000 ProgressData_zero 10000 0 =
     Some (pd_first, Some \<lparr>s_p = Fin 0, s_ETA = None\<rparr>)"
  by code_simp


lemma callback_unknown_total:
  "progress_callback 5500 pd_first 0 1000 =
     Some (pd_first, Some \<lparr>s_p = Fin 1000, s_ETA = None\<rparr>)"
  by code_simp


subsection \<open>The percentage\<close>

lemma progress_display_finite:
  "\<exists>q. s_p (progress_display bytesTotal bytesNow progressData) = Fin q"
proof -
  have "to_float (of_u32 (if bytesTotal < 1 then 1 else bytesTotal)) \<noteq> 0"
    by (simp add: to_float_u32_zero_iff word_less_1)
  then show ?thesis by (simp add: progress_display_def fdiv_def Let_def)
qed

lemma progress_callback_shown:
  assumes "progress_callback timeNow progressData dltotal dlnow = Some (progressData', Some sh)"
  shows "\<exists>bytesTotal bytesNow pd. sh = progress_display bytesTotal bytesNow pd"
  using assms
  by (auto simp: progress_callback_def Let_def split: option.splits if_splits)

text \<open>
  C9.  The divisor of line 241 is the \<open>float\<close> of the total after lines 238-240 have raised
  it to at least 1, and it is never zero; so the fraction \<open>p\<close> is a finite number in every
  display, also in every display of \<open>progress_callback\<close>, and for a total of zero it is the
  byte count divided by 1.
\<close>

theorem percentage_never_divides_by_zero:
  "(\<exists>q. s_p (progress_display bytesTotal bytesNow progressData) = Fin q) \<and>
   s_p (progress_display 0 bytesNow progressData) = Fin (to_float (to_float (of_u32 bytesNow) / 1)) \<and>
   to_float (of_u32 (if bytesTotal < 1 then 1 else bytesTotal)) \<noteq> 0 \<and>
   (progress_callback timeNow pd dltotal dlnow = Some (pd', Some sh) \<longrightarrow> (\<exists>q. s_p sh = Fin q))"
proof -
  have nz: "to_float (of_u32 (if bytesTotal < 1 then 1 else bytesTotal)) \<noteq> 0"
    by (simp add: to_float_u32_zero_iff word_less_1)
  have one: "to_float (of_u32 1) = 1"
    by (simp add: to_float_def of_u32_def fround_def ilog2_def pow2_def Let_def bitlen_def)
  have zero: "s_p (progress_display 0 bytesNow progressData) =
      Fin (to_float (to_float (of_u32 bytesNow) / 1))"
    by (simp add: progress_display_def fdiv_def Let_def one)
  have cb: "\<exists>q. s_p sh = Fin q"
    if "progress_callback timeNow pd dltotal dlnow = Some (pd', Some sh)"
    using progress_callback_shown [OF that] progress_display_finite by auto
  from progress_display_finite [of bytesTotal bytesNow progressData] zero nz cb
  show ?thesis by blast
qed

theorem percentage_never_divides_by_zero_witness:
  "progress_callback 5500 pd_first 0 1000 =
     Some (pd_first, Some \<lparr>s_p = Fin 1000, s_ETA = None\<rparr>) \<and>
   (\<exists>q. s_p \<lparr>s_p = Fin 1000, s_ETA = None\<rparr> = Fin q)"
  using percentage_never_divides_by_zero [THEN conjunct2, THEN conjunct2, THEN conjunct2,
      rule_format, OF callback_unknown_total] callback_unknown_total
  by simp

subsection \<open>The estimated time\<close>

text \<open>
  C5.  \<open>build_ETA_string\<close> has no guard: with an average speed of zero the \<open>float\<close> division
  of line 163 is a division by zero, its result is an infinity (a NaN when nothing remains),
  and the conversion of that result to \<open>int\<close> is undefined; no sentinel is rendered.  The
  first callback of a transfer, which reports no byte yet, is such a call.
\<close>

theorem eta_division_unguarded:
  "fdiv (to_float (of_u32 (bytesTotal - bytesNow))) (to_float (of_u32 0)) =
     (if bytesTotal = bytesNow then NaN else PInf) \<and>
   build_ETA_string bytesTotal bytesNow 0 = None \<and>
   progress_callback 5000 ProgressData_zero 10000 0 =
     Some (pd_first, Some \<lparr>s_p = Fin 0, s_ETA = None\<rparr>)"
proof -
  have z: "to_float (of_u32 0) = 0" by (simp add: to_float_def of_u32_def)
  have "0 < to_float (of_u32 (bytesTotal - bytesNow))" if "bytesTotal \<noteq> bytesNow"
  proof -
    from that have "bytesTotal - bytesNow \<noteq> 0" by simp
    then have "to_float (of_u32 (bytesTotal - bytesNow)) \<noteq> 0"
      by (simp only: to_float_u32_zero_iff not_False_eq_True)
    moreover have "0 \<le> to_float (of_u32 (bytesTotal - bytesNow))"
      unfolding to_float_def by (rule fround_nonneg [OF of_u32_bounds(1)]) simp
    ultimately show ?thesis by simp
  qed
  then have d: "fdiv (to_float (of_u32 (bytesTotal - bytesNow))) (to_float (of_u32 0)) =
     (if bytesTotal = bytesNow then NaN else PInf)"
    by (cases "bytesTotal = bytesNow") (simp_all add: fdiv_def z)
  have e: "build_ETA_string bytesTotal bytesNow 0 = None"
    by (simp add: build_ETA_string_def fdiv_def to_int_def to_float_def of_u32_def Let_def)
  from d e first_callback show ?thesis by simp
qed

subsection \<open>The smoothed speed\<close>
















end
